theory Spec2Isabelle
  imports Complex_Main "HOL-Library.AList"
begin

section \<open>Values, errors and the knowledge base (src/kb/kb.py)\<close>

text \<open>
  Python values that labels, targets, contexts and reasoning results range over.
  Booleans are the integers 0 and 1 (Python's \<^verbatim>\<open>bool\<close> is a subclass of \<^verbatim>\<open>int\<close>);
  floating-point results are left out of the embedding.
\<close>

datatype pyval = PNone | PInt int | PStr string | PList "pyval list"

datatype error = TypeError | IndexError | UnboundLocalError | KeyError

text \<open>
  The user's \<^verbatim>\<open>logic_forward\<close>: declared either as \<^verbatim>\<open>logic_forward(self, pseudo_label)\<close>
  or as \<^verbatim>\<open>logic_forward(self, pseudo_label, x)\<close>. The oracle is a pure function.
\<close>

datatype forward =
  Forward1 "pyval list \<Rightarrow> pyval"
| Forward2 "pyval list \<Rightarrow> pyval \<Rightarrow> pyval"

text \<open>\<^verbatim>\<open>len(inspect.getfullargspec(self.logic_forward).args)\<close>: the bound \<^verbatim>\<open>self\<close> is counted.\<close>

fun argspec_args_len :: "forward \<Rightarrow> int" where
  "argspec_args_len (Forward1 f) = 2"
| "argspec_args_len (Forward2 f) = 3"

datatype log_level = WARNING

record 'h KBBase =
  pseudo_label_list :: "pyval list"
  max_err :: rat
  use_cache :: bool
  key_func :: "pyval \<Rightarrow> 'h"
  cache_size :: "int option"
  num_args :: int
  logic_forward :: forward

text \<open>
  \<^verbatim>\<open>KBBase.__init__\<close>. The result is the instance and the log records emitted by
  \<^verbatim>\<open>print_log\<close>. \<^verbatim>\<open>cache_size\<close> is \<open>Some n\<close> for an \<^verbatim>\<open>int\<close> and \<open>None\<close> for any other
  value; \<^verbatim>\<open>max_err\<close> is a finite float taken at its exact value.
\<close>

definition KBBase_init ::
  "pyval list \<Rightarrow> rat \<Rightarrow> bool \<Rightarrow> (pyval \<Rightarrow> 'h) \<Rightarrow> int option \<Rightarrow> forward
    \<Rightarrow> 'h KBBase \<times> (log_level \<times> string) list" where
  "KBBase_init labels merr uc kf cs lf =
    (let self = \<lparr> pseudo_label_list = labels, max_err = merr, use_cache = uc,
                   key_func = kf, cache_size = cs,
                   num_args = argspec_args_len lf - 1, logic_forward = lf \<rparr>
     in if num_args self = 2 \<and> use_cache self
        then (self\<lparr>use_cache := False\<rparr>,
              [(WARNING, ''The logic_forward function has 2 arguments, so the cache is disabled. '')])
        else (self, []))"

text \<open>
  \<^verbatim>\<open>self.logic_forward(candidate, *(x,) if self._num_args == 2 else ())\<close>: a call whose
  number of arguments does not fit the declaration raises \<^verbatim>\<open>TypeError\<close>.
\<close>

definition call_logic_forward :: "'h KBBase \<Rightarrow> pyval list \<Rightarrow> pyval \<Rightarrow> error + pyval" where
  "call_logic_forward self candidate x =
    (if num_args self = 2
     then (case logic_forward self of
             Forward2 f \<Rightarrow> Inr (f candidate x)
           | Forward1 f \<Rightarrow> Inl TypeError)
     else (case logic_forward self of
             Forward1 f \<Rightarrow> Inr (f candidate)
           | Forward2 f \<Rightarrow> Inl TypeError))"

text \<open>\<^verbatim>\<open>KBBase._check_equal\<close>.\<close>

fun check_equal :: "rat \<Rightarrow> pyval \<Rightarrow> pyval \<Rightarrow> bool" where
  "check_equal merr PNone y = False"
| "check_equal merr (PInt r) (PInt y) = (of_int \<bar>r - y\<bar> \<le> merr)"
| "check_equal merr r y = (r = y)"

subsection \<open>Enumerations of itertools\<close>

text \<open>\<^verbatim>\<open>itertools.product(xs, repeat=k)\<close>: the first coordinate varies slowest.\<close>

fun product_repeat :: "'a list \<Rightarrow> nat \<Rightarrow> 'a list list" where
  "product_repeat xs 0 = [[]]"
| "product_repeat xs (Suc k) = concat (map (\<lambda>v. map ((#) v) (product_repeat xs k)) xs)"

text \<open>\<^verbatim>\<open>itertools.combinations(xs, k)\<close>: the \<open>k\<close>-element subsequences in lexicographic order.\<close>

fun combinations :: "'a list \<Rightarrow> nat \<Rightarrow> 'a list list" where
  "combinations xs 0 = [[]]"
| "combinations [] (Suc k) = []"
| "combinations (x # xs) (Suc k) = map ((#) x) (combinations xs k) @ combinations xs (Suc k)"

subsection \<open>Revision at given positions\<close>

text \<open>\<^verbatim>\<open>xs[i] = v\<close> on a Python list: negative indices count from the end.\<close>

definition list_setitem :: "'a list \<Rightarrow> int \<Rightarrow> 'a \<Rightarrow> error + 'a list" where
  "list_setitem xs i v =
    (let n = int (length xs)
     in if 0 \<le> i \<and> i < n then Inr (xs[nat i := v])
        else if - n \<le> i \<and> i < 0 then Inr (xs[nat (i + n) := v])
        else Inl IndexError)"

text \<open>\<^verbatim>\<open>for i, idx in enumerate(revision_idx): candidate[idx] = c[i]\<close>.\<close>

fun overlay :: "pyval list \<Rightarrow> int list \<Rightarrow> pyval list \<Rightarrow> error + pyval list" where
  "overlay candidate [] c = Inr candidate"
| "overlay candidate (idx # idxs) [] = Inl IndexError"
| "overlay candidate (idx # idxs) (v # vs) =
    (case list_setitem candidate idx v of
       Inl e \<Rightarrow> Inl e
     | Inr candidate' \<Rightarrow> overlay candidate' idxs vs)"

text \<open>The loop of \<^verbatim>\<open>KBBase.revise_at_idx\<close> over the remaining assignments \<open>abduce_c\<close>.\<close>

fun revise_loop ::
  "'h KBBase \<Rightarrow> pyval list \<Rightarrow> pyval \<Rightarrow> pyval \<Rightarrow> int list \<Rightarrow> pyval list list
    \<Rightarrow> pyval list list \<times> pyval list \<Rightarrow> error + pyval list list \<times> pyval list" where
  "revise_loop self pseudo_label y x revision_idx [] (candidates, reasoning_results) =
    Inr (candidates, reasoning_results)"
| "revise_loop self pseudo_label y x revision_idx (c # abduce_c) (candidates, reasoning_results) =
    (case overlay pseudo_label revision_idx c of
       Inl e \<Rightarrow> Inl e
     | Inr candidate \<Rightarrow>
        (case call_logic_forward self candidate x of
           Inl e \<Rightarrow> Inl e
         | Inr reasoning_result \<Rightarrow>
            if check_equal (max_err self) reasoning_result y
            then revise_loop self pseudo_label y x revision_idx abduce_c
                   (candidates @ [candidate], reasoning_results @ [reasoning_result])
            else revise_loop self pseudo_label y x revision_idx abduce_c
                   (candidates, reasoning_results)))"

definition revise_at_idx ::
  "'h KBBase \<Rightarrow> pyval list \<Rightarrow> pyval \<Rightarrow> pyval \<Rightarrow> int list
    \<Rightarrow> error + pyval list list \<times> pyval list" where
  "revise_at_idx self pseudo_label y x revision_idx =
    revise_loop self pseudo_label y x revision_idx
      (product_repeat (pseudo_label_list self) (length revision_idx)) ([], [])"

text \<open>The loop of \<^verbatim>\<open>KBBase._revision\<close> over the remaining index tuples.\<close>

fun revision_loop ::
  "'h KBBase \<Rightarrow> pyval list \<Rightarrow> pyval \<Rightarrow> pyval \<Rightarrow> nat list list
    \<Rightarrow> pyval list list \<times> pyval list \<Rightarrow> error + pyval list list \<times> pyval list" where
  "revision_loop self pseudo_label y x [] (new_candidates, new_reasoning_results) =
    Inr (new_candidates, new_reasoning_results)"
| "revision_loop self pseudo_label y x (revision_idx # rest) (new_candidates, new_reasoning_results) =
    (case revise_at_idx self pseudo_label y x (map int revision_idx) of
       Inl e \<Rightarrow> Inl e
     | Inr (candidates, reasoning_results) \<Rightarrow>
        revision_loop self pseudo_label y x rest
          (new_candidates @ candidates, new_reasoning_results @ reasoning_results))"

definition revision ::
  "'h KBBase \<Rightarrow> nat \<Rightarrow> pyval list \<Rightarrow> pyval \<Rightarrow> pyval
    \<Rightarrow> error + pyval list list \<times> pyval list" where
  "revision self revision_num pseudo_label y x =
    revision_loop self pseudo_label y x
      (combinations [0..<length pseudo_label] revision_num) ([], [])"

subsection \<open>The search\<close>

text \<open>
  How the first loop of \<^verbatim>\<open>_abduce_by_search\<close> ends: by \<^verbatim>\<open>break\<close> with
  \<^verbatim>\<open>min_revision_num\<close> bound, by \<^verbatim>\<open>return [], []\<close>, or by running out of levels with
  \<^verbatim>\<open>min_revision_num\<close> never assigned.
\<close>

datatype first_loop_exit =
  Break nat "pyval list list" "pyval list"
| Return_empty
| Exhausted "pyval list list" "pyval list"

fun first_loop ::
  "'h KBBase \<Rightarrow> pyval list \<Rightarrow> pyval \<Rightarrow> pyval \<Rightarrow> int \<Rightarrow> nat list
    \<Rightarrow> pyval list list \<times> pyval list \<Rightarrow> error + first_loop_exit" where
  "first_loop self pseudo_label y x max_revision_num [] (candidates, reasoning_results) =
    Inr (Exhausted candidates reasoning_results)"
| "first_loop self pseudo_label y x max_revision_num (revision_num # rest)
      (candidates, reasoning_results) =
    (case revision self revision_num pseudo_label y x of
       Inl e \<Rightarrow> Inl e
     | Inr (new_candidates, new_reasoning_results) \<Rightarrow>
        (let candidates = candidates @ new_candidates;
             reasoning_results = reasoning_results @ new_reasoning_results
         in if length candidates > 0 then Inr (Break revision_num candidates reasoning_results)
            else if int revision_num \<ge> max_revision_num then Inr Return_empty
            else first_loop self pseudo_label y x max_revision_num rest
                   (candidates, reasoning_results)))"

fun second_loop ::
  "'h KBBase \<Rightarrow> pyval list \<Rightarrow> pyval \<Rightarrow> pyval \<Rightarrow> int \<Rightarrow> nat list
    \<Rightarrow> pyval list list \<times> pyval list \<Rightarrow> error + pyval list list \<times> pyval list" where
  "second_loop self pseudo_label y x max_revision_num [] (candidates, reasoning_results) =
    Inr (candidates, reasoning_results)"
| "second_loop self pseudo_label y x max_revision_num (revision_num # rest)
      (candidates, reasoning_results) =
    (if int revision_num > max_revision_num then Inr (candidates, reasoning_results)
     else (case revision self revision_num pseudo_label y x of
             Inl e \<Rightarrow> Inl e
           | Inr (new_candidates, new_reasoning_results) \<Rightarrow>
              second_loop self pseudo_label y x max_revision_num rest
                (candidates @ new_candidates, reasoning_results @ new_reasoning_results)))"

text \<open>
  \<^verbatim>\<open>KBBase._abduce_by_search\<close>, undecorated. The second \<^verbatim>\<open>range\<close> starts at
  \<^verbatim>\<open>min_revision_num + 1\<close> and is empty when \<^verbatim>\<open>require_more_revision \<le> 0\<close>.
\<close>

definition abduce_by_search ::
  "'h KBBase \<Rightarrow> pyval list \<Rightarrow> pyval \<Rightarrow> pyval \<Rightarrow> int \<Rightarrow> int
    \<Rightarrow> error + pyval list list \<times> pyval list" where
  "abduce_by_search self pseudo_label y x max_revision_num require_more_revision =
    (case first_loop self pseudo_label y x max_revision_num
            [0..<length pseudo_label + 1] ([], []) of
       Inl e \<Rightarrow> Inl e
     | Inr Return_empty \<Rightarrow> Inr ([], [])
     | Inr (Exhausted candidates reasoning_results) \<Rightarrow> Inl UnboundLocalError
     | Inr (Break min_revision_num candidates reasoning_results) \<Rightarrow>
        second_loop self pseudo_label y x max_revision_num
          [min_revision_num + 1..<nat (int min_revision_num + require_more_revision + 1)]
          (candidates, reasoning_results))"

section \<open>The result cache (src/utils/cache.py)\<close>

text \<open>
  A link of the circular doubly linked list is the Python list \<^verbatim>\<open>[PREV, NEXT, KEY, RESULT]\<close>.
  Links are shared mutable objects, so they live in a store: a link is named by its
  address, the store is the list \<open>heap\<close> of all links allocated so far, and a new link
  gets the next free address. \<open>None\<close> in the last two fields is Python's \<^verbatim>\<open>None\<close>.
\<close>

record ('k, 'v) link =
  PREV :: nat
  NEXT :: nat
  KEY :: "'k option"
  RESULT :: "'v option"

text \<open>
  The cache key \<^verbatim>\<open>(self.key_func(pred_pseudo_label), self.key_func(y), *res_args)\<close>.
\<close>

type_synonym 'h cache_key = "'h \<times> 'h \<times> int list"

text \<open>
  The state of a \<^verbatim>\<open>Cache\<close> object. \<^verbatim>\<open>cache_dict\<close> is a Python dictionary from keys to
  links: an association list with distinct keys, in insertion order. \<^verbatim>\<open>max_size\<close> is
  \<open>Some n\<close> for an \<^verbatim>\<open>int\<close> and \<open>None\<close> for any other value; \<^verbatim>\<open>key_func\<close> is \<open>None\<close>
  until \<^verbatim>\<open>init_cache\<close> binds it.
\<close>

record ('h, 'v) Cache =
  func :: "'h KBBase \<Rightarrow> pyval list \<Rightarrow> pyval \<Rightarrow> pyval \<Rightarrow> int \<Rightarrow> int \<Rightarrow> error + 'v"
  has_init :: bool
  cache :: bool
  cache_dict :: "('h cache_key \<times> nat) list"
  key_func :: "(pyval \<Rightarrow> 'h) option"
  max_size :: "int option"
  hits :: int
  misses :: int
  full :: bool
  root :: nat
  heap :: "('h cache_key, 'v) link list"

text \<open>\<^verbatim>\<open>Cache.__init__\<close>: the root is a fresh link that points to itself.\<close>

definition Cache_init ::
  "('h KBBase \<Rightarrow> pyval list \<Rightarrow> pyval \<Rightarrow> pyval \<Rightarrow> int \<Rightarrow> int \<Rightarrow> error + 'v) \<Rightarrow> ('h, 'v) Cache" where
  "Cache_init f =
    \<lparr> func = f, has_init = False, cache = False, cache_dict = [], key_func = None,
      max_size = Some 0, hits = 0, misses = 0, full = False, root = 0,
      heap = [\<lparr> PREV = 0, NEXT = 0, KEY = None, RESULT = None \<rparr>] \<rparr>"

text \<open>\<^verbatim>\<open>Cache.clear_cache\<close>: only the dictionary is emptied.\<close>

definition clear_cache :: "('h, 'v) Cache \<Rightarrow> ('h, 'v) Cache" where
  "clear_cache self = self\<lparr> cache_dict := [] \<rparr>"

text \<open>\<^verbatim>\<open>Cache.init_cache\<close>.\<close>

definition init_cache :: "('h, 'v) Cache \<Rightarrow> 'h KBBase \<Rightarrow> ('h, 'v) Cache" where
  "init_cache self obj =
    (if has_init self then self
     else self\<lparr> cache := True, cache_dict := [],
                key_func := Some (KBBase.key_func obj), max_size := cache_size obj,
                hits := 0, misses := 0, full := False,
                root := length (heap self),
                heap := heap self @ [\<lparr> PREV = length (heap self), NEXT = length (heap self),
                                       KEY = None, RESULT = None \<rparr>],
                has_init := True \<rparr>)"

text \<open>Assignments to one field of the link at an address.\<close>

definition set_PREV :: "('k, 'v) link list \<Rightarrow> nat \<Rightarrow> nat \<Rightarrow> ('k, 'v) link list" where
  "set_PREV h a p = h[a := (h ! a)\<lparr> PREV := p \<rparr>]"

definition set_NEXT :: "('k, 'v) link list \<Rightarrow> nat \<Rightarrow> nat \<Rightarrow> ('k, 'v) link list" where
  "set_NEXT h a n = h[a := (h ! a)\<lparr> NEXT := n \<rparr>]"

definition set_KEY :: "('k, 'v) link list \<Rightarrow> nat \<Rightarrow> 'k option \<Rightarrow> ('k, 'v) link list" where
  "set_KEY h a k = h[a := (h ! a)\<lparr> KEY := k \<rparr>]"

definition set_RESULT :: "('k, 'v) link list \<Rightarrow> nat \<Rightarrow> 'v option \<Rightarrow> ('k, 'v) link list" where
  "set_RESULT h a r = h[a := (h ! a)\<lparr> RESULT := r \<rparr>]"

text \<open>
  The hit branch of \<^verbatim>\<open>get_from_dict\<close>: the link is moved to the front of the queue
  (just before the root) and its result is returned.
\<close>

definition cache_hit :: "('h, 'v) Cache \<Rightarrow> nat \<Rightarrow> (error + 'v option) \<times> ('h, 'v) Cache" where
  "cache_hit self lnk =
    (let h = heap self;
         link_prev = PREV (h ! lnk);
         link_next = NEXT (h ! lnk);
         result = RESULT (h ! lnk);
         h = set_NEXT h link_prev link_next;
         h = set_PREV h link_next link_prev;
         last = PREV (h ! root self);
         h = set_NEXT h last lnk;
         h = set_PREV h (root self) lnk;
         h = set_PREV h lnk last;
         h = set_NEXT h lnk (root self)
     in (Inr result, self\<lparr> heap := h, hits := hits self + 1 \<rparr>))"

text \<open>
  The full branch after a miss: the old root stores the new key and result, the oldest
  link becomes the new root, and \<^verbatim>\<open>del self.cache_dict[oldkey]\<close> raises \<^verbatim>\<open>KeyError\<close> when
  \<open>oldkey\<close> is not a key of the dictionary.
\<close>

definition cache_evict ::
  "('h, 'v) Cache \<Rightarrow> 'h cache_key \<Rightarrow> 'v \<Rightarrow> (error + 'v option) \<times> ('h, 'v) Cache" where
  "cache_evict self cache_key result =
    (let oldroot = root self;
         h = set_KEY (heap self) oldroot (Some cache_key);
         h = set_RESULT h oldroot (Some result);
         newroot = NEXT (h ! oldroot);
         oldkey = KEY (h ! newroot);
         h = set_KEY h newroot None;
         h = set_RESULT h newroot None;
         self = self\<lparr> root := newroot, heap := h \<rparr>
     in case oldkey of
          None \<Rightarrow> (Inl KeyError, self)
        | Some k \<Rightarrow>
           (case map_of (cache_dict self) k of
              None \<Rightarrow> (Inl KeyError, self)
            | Some l \<Rightarrow>
               (Inr (Some result),
                self\<lparr> cache_dict := AList.update cache_key oldroot
                                       (AList.delete k (cache_dict self)) \<rparr>)))"

text \<open>The other branch after a miss: a new link is put at the front of the queue.\<close>

definition cache_insert ::
  "('h, 'v) Cache \<Rightarrow> 'h cache_key \<Rightarrow> 'v \<Rightarrow> (error + 'v option) \<times> ('h, 'v) Cache" where
  "cache_insert self cache_key result =
    (let last = PREV (heap self ! root self);
         lnk = length (heap self);
         h = heap self @ [\<lparr> PREV = last, NEXT = root self,
                              KEY = Some cache_key, RESULT = Some result \<rparr>];
         h = set_NEXT h last lnk;
         h = set_PREV h (root self) lnk;
         d = AList.update cache_key lnk (cache_dict self);
         self = self\<lparr> heap := h, cache_dict := d \<rparr>
     in (Inr (Some result),
         case max_size self of
           Some n \<Rightarrow> self\<lparr> full := (int (length (cache_dict self)) \<ge> n) \<rparr>
         | None \<Rightarrow> self))"

text \<open>
  \<^verbatim>\<open>Cache.get_from_dict\<close> with \<^verbatim>\<open>args = (pred_pseudo_label, y, x, max_revision_num,
  require_more_revision)\<close>. The result is the value returned or the exception raised,
  together with the state the cache is left in. Calling \<^verbatim>\<open>self.key_func\<close> while it is
  still \<^verbatim>\<open>None\<close> raises \<^verbatim>\<open>TypeError\<close>.
\<close>

definition get_from_dict ::
  "('h, 'v) Cache \<Rightarrow> 'h KBBase \<Rightarrow> pyval list \<Rightarrow> pyval \<Rightarrow> pyval \<Rightarrow> int \<Rightarrow> int
    \<Rightarrow> (error + 'v option) \<times> ('h, 'v) Cache" where
  "get_from_dict self obj pred_pseudo_label y x max_revision_num require_more_revision =
    (case Cache.key_func self of
       None \<Rightarrow> (Inl TypeError, self)
     | Some kf \<Rightarrow>
        (let res_args = [max_revision_num, require_more_revision];
             cache_key = (kf (PList pred_pseudo_label), kf y, res_args)
         in case map_of (cache_dict self) cache_key of
              Some lnk \<Rightarrow> cache_hit self lnk
            | None \<Rightarrow>
               (let self = self\<lparr> misses := misses self + 1 \<rparr>
                in case func self obj pred_pseudo_label y x max_revision_num
                          require_more_revision of
                     Inl e \<Rightarrow> (Inl e, self)
                   | Inr result \<Rightarrow>
                      if full self then cache_evict self cache_key result
                      else cache_insert self cache_key result)))"

text \<open>
  The function \<^verbatim>\<open>wrapper\<close> that \<^verbatim>\<open>abl_cache()\<close> puts in place of the decorated function.
  Its \<^verbatim>\<open>cache_instance\<close> is created once, when the function is decorated, and is the state
  that every call of the wrapper reads and updates.
\<close>

definition wrapper ::
  "('h, 'v) Cache \<Rightarrow> 'h KBBase \<Rightarrow> pyval list \<Rightarrow> pyval \<Rightarrow> pyval \<Rightarrow> int \<Rightarrow> int
    \<Rightarrow> (error + 'v option) \<times> ('h, 'v) Cache" where
  "wrapper cache_instance obj pred_pseudo_label y x max_revision_num require_more_revision =
    (if use_cache obj
     then get_from_dict (init_cache cache_instance obj) obj pred_pseudo_label y x
            max_revision_num require_more_revision
     else (case func cache_instance obj pred_pseudo_label y x max_revision_num
                  require_more_revision of
             Inl e \<Rightarrow> Inl e
           | Inr result \<Rightarrow> Inr (Some result),
           cache_instance))"

text \<open>
  \<^verbatim>\<open>KBBase.abduce_candidates\<close> calls the decorated \<^verbatim>\<open>_abduce_by_search\<close>, whose cache
  instance starts as \<open>Cache_init abduce_by_search\<close>.
\<close>

definition abduce_candidates ::
  "('h, pyval list list \<times> pyval list) Cache \<Rightarrow> 'h KBBase \<Rightarrow> pyval list \<Rightarrow> pyval
    \<Rightarrow> pyval \<Rightarrow> int \<Rightarrow> int
    \<Rightarrow> (error + (pyval list list \<times> pyval list) option)
        \<times> ('h, pyval list list \<times> pyval list) Cache" where
  "abduce_candidates cache_instance self pseudo_label y x max_revision_num require_more_revision =
    wrapper cache_instance self pseudo_label y x max_revision_num require_more_revision"

text \<open>Sequences of operations on one cache instance: cached calls and \<^verbatim>\<open>clear_cache\<close>.\<close>

datatype 'h cache_op =
  Call "'h KBBase" "pyval list" pyval pyval int int
| Clear_cache

fun run_op ::
  "('h, 'v) Cache \<Rightarrow> 'h cache_op \<Rightarrow> (error + 'v option) \<times> ('h, 'v) Cache" where
  "run_op c (Call obj pl y x mx req) = wrapper c obj pl y x mx req"
| "run_op c Clear_cache = (Inr None, clear_cache c)"

fun run_ops ::
  "('h, 'v) Cache \<Rightarrow> 'h cache_op list \<Rightarrow> (error + 'v option) list \<times> ('h, 'v) Cache" where
  "run_ops c [] = ([], c)"
| "run_ops c (op # ops) =
    (let (r, c') = run_op c op; (rs, c'') = run_ops c' ops in (r # rs, c''))"

text \<open>
  The key of a call is a key of the dictionary; and it is one after each operation of a
  sequence. The key is built as \<^verbatim>\<open>get_from_dict\<close> builds it, without the context.
\<close>

definition in_cache :: "('h, 'v) Cache \<Rightarrow> pyval list \<Rightarrow> pyval \<Rightarrow> int \<Rightarrow> int \<Rightarrow> bool" where
  "in_cache c pred_pseudo_label y max_revision_num require_more_revision =
    (case Cache.key_func c of
       None \<Rightarrow> False
     | Some kf \<Rightarrow>
        map_of (cache_dict c)
          (kf (PList pred_pseudo_label), kf y, [max_revision_num, require_more_revision]) \<noteq> None)"

fun stays_in_cache ::
  "('h, 'v) Cache \<Rightarrow> pyval list \<Rightarrow> pyval \<Rightarrow> int \<Rightarrow> int \<Rightarrow> 'h cache_op list \<Rightarrow> bool" where
  "stays_in_cache c pl y mx req [] = True"
| "stays_in_cache c pl y mx req (op # ops) =
    (in_cache (snd (run_op c op)) pl y mx req
     \<and> stays_in_cache (snd (run_op c op)) pl y mx req ops)"

section \<open>Invariants of the cache\<close>

text \<open>Every link of the store points to allocated links.\<close>

definition ptrs_valid :: "('k, 'v) link list \<Rightarrow> bool" where
  "ptrs_valid h = (\<forall>a<length h. PREV (h ! a) < length h \<and> NEXT (h ! a) < length h)"

text \<open>The root, the links and the values of the dictionary are allocated addresses.\<close>

definition heap_valid :: "('h, 'v) Cache \<Rightarrow> bool" where
  "heap_valid c = (root c < length (heap c) \<and> ptrs_valid (heap c)
     \<and> (\<forall>k a. map_of (cache_dict c) k = Some a \<longrightarrow> a < length (heap c)))"

text \<open>\<^verbatim>\<open>self.misses += 1\<close>.\<close>

definition count_miss :: "('h, 'v) Cache \<Rightarrow> ('h, 'v) Cache" where
  "count_miss c = c\<lparr>misses := misses c + 1\<rparr>"

text \<open>The store and the root after the pointer updates of the eviction branch.\<close>

definition evict_state :: "('h, 'v) Cache \<Rightarrow> 'h cache_key \<Rightarrow> 'v \<Rightarrow> ('h, 'v) Cache" where
  "evict_state c key res =
    (let h2 = set_RESULT (set_KEY (heap c) (root c) (Some key)) (root c) (Some res);
         nr = NEXT (h2 ! root c)
     in c\<lparr>root := nr, heap := set_RESULT (set_KEY h2 nr None) nr None\<rparr>)"

text \<open>The key \<^verbatim>\<open>oldkey\<close> read in the eviction branch.\<close>

definition evict_oldkey :: "('h, 'v) Cache \<Rightarrow> 'h cache_key \<Rightarrow> 'h cache_key option" where
  "evict_oldkey c key =
    (let h2 = set_KEY (heap c) (root c) (Some key) in KEY (h2 ! NEXT (h2 ! root c)))"

text \<open>The store and the dictionary after the insertion branch, before \<^verbatim>\<open>full\<close> is set.\<close>

definition insert_state :: "('h, 'v) Cache \<Rightarrow> 'h cache_key \<Rightarrow> 'v \<Rightarrow> ('h, 'v) Cache" where
  "insert_state c key res =
    c\<lparr>heap := set_PREV (set_NEXT (heap c @ [\<lparr>PREV = PREV (heap c ! root c), NEXT = root c,
                KEY = Some key, RESULT = Some res\<rparr>]) (PREV (heap c ! root c)) (length (heap c)))
              (root c) (length (heap c)),
      cache_dict := AList.update key (length (heap c)) (cache_dict c)\<rparr>"

text \<open>Consecutive addresses of a list are joined by \<^verbatim>\<open>NEXT\<close> and \<^verbatim>\<open>PREV\<close>.\<close>

fun linked :: "('k, 'v) link list \<Rightarrow> nat list \<Rightarrow> bool" where
  "linked h (a # b # cs) = (NEXT (h ! a) = b \<and> PREV (h ! b) = a \<and> linked h (b # cs))"
| "linked h cs = True"

text \<open>The invariant of a cache on which \<^verbatim>\<open>clear_cache\<close> was never called: the links \<open>ls\<close>
  (oldest first) and the root form the circular list, the dictionary maps exactly the keys
  of these links to them, every stored result satisfies \<open>P\<close> for its key, and a full
  cache has a link.\<close>

definition cache_inv ::
  "('h cache_key \<Rightarrow> 'v \<Rightarrow> bool) \<Rightarrow> ('h, 'v) Cache \<Rightarrow> nat list \<Rightarrow> bool" where
  "cache_inv P c ls =
    (heap_valid c \<and> linked (heap c) (root c # ls @ [root c]) \<and> distinct (root c # ls)
     \<and> (\<forall>a\<in>set ls. a < length (heap c)
           \<and> (\<exists>k. KEY (heap c ! a) = Some k \<and> map_of (cache_dict c) k = Some a))
     \<and> (\<forall>k a. map_of (cache_dict c) k = Some a \<longrightarrow>
           a \<in> set ls \<and> KEY (heap c ! a) = Some k
           \<and> (\<exists>v. RESULT (heap c ! a) = Some v \<and> P k v))
     \<and> (full c \<longrightarrow> ls \<noteq> []))"

text \<open>Every link of the dictionary holds the key it is stored under and is not the root.\<close>

definition entry_inv :: "('h, 'v) Cache \<Rightarrow> bool" where
  "entry_inv c = (heap_valid c
     \<and> (\<forall>k a. map_of (cache_dict c) k = Some a \<longrightarrow> a \<noteq> root c \<and> KEY (heap c ! a) = Some k))"

text \<open>The dictionary has distinct keys and respects the capacity.\<close>

definition size_ok :: "('h, 'v) Cache \<Rightarrow> bool" where
  "size_ok c = (distinct (map fst (cache_dict c))
     \<and> (\<forall>n. max_size c = Some n \<longrightarrow>
           int (length (cache_dict c)) \<le> max n 1
           \<and> (\<not> full c \<longrightarrow> cache_dict c = [] \<or> int (length (cache_dict c)) < n)))"

text \<open>After \<^verbatim>\<open>init_cache\<close> the key function is bound.\<close>

definition key_bound :: "('h, 'v) Cache \<Rightarrow> bool" where
  "key_bound c = (has_init c \<longrightarrow> Cache.key_func c \<noteq> None)"

text \<open>The outcome of the wrapped function as the wrapper hands it on.\<close>

definition returned :: "error + 'v \<Rightarrow> error + 'v option" where
  "returned r = (case r of Inl e \<Rightarrow> Inl e | Inr result \<Rightarrow> Inr (Some result))"

text \<open>A value is what the search returns for every argument tuple that has the given key.\<close>

definition stored_ok ::
  "'h KBBase \<Rightarrow> 'h cache_key \<Rightarrow> pyval list list \<times> pyval list \<Rightarrow> bool" where
  "stored_ok obj k v =
    (\<forall>pl y x mx req. (KBBase.key_func obj (PList pl), KBBase.key_func obj y, [mx, req]) = k
        \<longrightarrow> abduce_by_search obj pl y x mx req = Inr v)"

text \<open>The invariant behind cache transparency for the calls made through one instance.\<close>

definition transparent_inv ::
  "'h KBBase \<Rightarrow> ('h, pyval list list \<times> pyval list) Cache \<Rightarrow> bool" where
  "transparent_inv obj c =
    ((\<exists>ls. cache_inv (stored_ok obj) c ls) \<and> func c = abduce_by_search
     \<and> (has_init c \<longrightarrow> Cache.key_func c = Some (KBBase.key_func obj)))"

text \<open>The arguments \<^verbatim>\<open>(pseudo_label, y, x, max_revision_num, require_more_revision)\<close> of a call.\<close>

type_synonym search_args = "pyval list \<times> pyval \<times> pyval \<times> int \<times> int"

fun call_op :: "'h KBBase \<Rightarrow> search_args \<Rightarrow> 'h cache_op" where
  "call_op obj (pl, y, x, mx, req) = Call obj pl y x mx req"

section \<open>Revised positions\<close>

text \<open>The positions at which a candidate differs from the original sequence, and their number.\<close>

definition revised_positions :: "pyval list \<Rightarrow> pyval list \<Rightarrow> nat list" where
  "revised_positions pseudo_label candidate =
    filter (\<lambda>i. candidate ! i \<noteq> pseudo_label ! i) [0..<length pseudo_label]"

definition revision_count :: "pyval list \<Rightarrow> pyval list \<Rightarrow> nat" where
  "revision_count pseudo_label candidate = length (revised_positions pseudo_label candidate)"

section \<open>Example oracles and instances\<close>

subsection \<open>The sum oracle\<close>

text \<open>The sum of the labels of a sequence, declared without the context parameter.\<close>

fun label_int :: "pyval \<Rightarrow> int" where
  "label_int (PInt i) = i"
| "label_int v = 0"

definition sum_forward :: "pyval list \<Rightarrow> pyval" where
  "sum_forward pseudo_label = PInt (sum_list (map label_int pseudo_label))"

definition sum_kb :: "(pyval list \<Rightarrow> pyval) \<Rightarrow> pyval KBBase" where
  "sum_kb f = fst (KBBase_init [PInt 0, PInt 1] (1 / 10 ^ 10) True id (Some 4096) (Forward1 f))"

text \<open>The sum of the labels plus the context, declared with the context parameter.\<close>

definition sum_forward_x :: "pyval list \<Rightarrow> pyval \<Rightarrow> pyval" where
  "sum_forward_x pseudo_label x = PInt (sum_list (map label_int pseudo_label) + label_int x)"

text \<open>The candidate list of a search outcome (empty when the search raised).\<close>

fun candidates_of :: "error + pyval list list \<times> pyval list \<Rightarrow> pyval list list" where
  "candidates_of (Inl e) = []"
| "candidates_of (Inr (candidates, reasoning_results)) = candidates"

subsection \<open>Instances for the cache\<close>

text \<open>The sum instance with a given cache capacity; the key function is the identity.\<close>

definition sized_kb :: "int \<Rightarrow> pyval KBBase" where
  "sized_kb n =
    fst (KBBase_init [PInt 0, PInt 1] (1 / 10 ^ 10) True id (Some n) (Forward1 sum_forward))"

text \<open>A second oracle, the product of the labels, and an instance that uses it.\<close>

definition prod_forward :: "pyval list \<Rightarrow> pyval" where
  "prod_forward pseudo_label = PInt (prod_list (map label_int pseudo_label))"

definition prod_kb :: "int \<Rightarrow> pyval KBBase" where
  "prod_kb n =
    fst (KBBase_init [PInt 0, PInt 1] (1 / 10 ^ 10) True id (Some n) (Forward1 prod_forward))"

text \<open>A key function that maps every value to the same key, and an instance that uses it.\<close>

definition const_key :: "pyval \<Rightarrow> pyval" where
  "const_key v = PNone"

definition const_kb :: "pyval KBBase" where
  "const_kb =
    fst (KBBase_init [PInt 0, PInt 1] (1 / 10 ^ 10) True const_key (Some 4096)
          (Forward1 sum_forward))"

section \<open>Construction: the oracle's arity and the cache flag\<close>

text \<open>
  C2, as stated, fails: an oracle declared with the candidate sequence only keeps the
  cache enabled and logs nothing, and an oracle declared with the context parameter has
  its cache disabled.
\<close>

theorem init_cache_flag_counterexample:
  "use_cache (fst (KBBase_init [PInt 0, PInt 1] (1 / 10 ^ 10) True id (Some 4096) (Forward1 sum_forward)))
   \<and> snd (KBBase_init [PInt 0, PInt 1] (1 / 10 ^ 10) True id (Some 4096) (Forward1 sum_forward)) = []
   \<and> \<not> use_cache (fst (KBBase_init [PInt 0, PInt 1] (1 / 10 ^ 10) True id (Some 4096) (Forward2 sum_forward_x)))"
  by (simp add: KBBase_init_def)

text \<open>
  C2 (amended): at construction with \<^verbatim>\<open>use_cache\<close> configured on, an oracle that accepts
  the candidate sequence only leaves caching enabled and no warning is logged; an oracle
  that also accepts the context parameter (\<^verbatim>\<open>_num_args == 2\<close>) has caching disabled,
  whatever was configured, and exactly one warning is logged.
\<close>

theorem init_cache_flag:
  "use_cache (fst (KBBase_init labels merr True kf cs (Forward1 f)))
   \<and> snd (KBBase_init labels merr True kf cs (Forward1 f)) = []
   \<and> \<not> use_cache (fst (KBBase_init labels merr uc kf cs (Forward2 g)))
   \<and> map fst (snd (KBBase_init labels merr True kf cs (Forward2 g))) = [WARNING]"
  by (simp add: KBBase_init_def Let_def)

section \<open>The search on concrete inputs\<close>

text \<open>
  C3: the search is meant to report infeasibility by returning two empty lists. With
  label space \<open>[0, 1]\<close>, the sum oracle, the sequence \<open>[0]\<close>, target \<open>5\<close> and
  \<^verbatim>\<open>max_revision_num = 2\<close> (more than the length of the sequence) no level matches, the
  first loop runs out of levels without returning, and reading \<^verbatim>\<open>min_revision_num\<close>
  raises \<^verbatim>\<open>UnboundLocalError\<close>.
\<close>

theorem search_unbound_min_revision_num:
  "abduce_by_search (sum_kb sum_forward) [PInt 0] (PInt 5) PNone 2 0 = Inl UnboundLocalError"
  by code_simp

text \<open>
  C5, as stated, fails: in Scenario B the candidate \<open>[1, 0]\<close> is returned twice, once from
  level 1 and once from level 2.
\<close>

theorem scenario_B_counterexample:
  "count_list (candidates_of (abduce_by_search (sum_kb sum_forward) [PInt 0, PInt 0] (PInt 1) PNone 2 1))
      [PInt 1, PInt 0] = 2"
  by code_simp

text \<open>
  C5 (amended): in Scenario B level 0 yields nothing, level 1 yields \<open>[1,0]\<close> and \<open>[0,1]\<close>
  (so the minimal revision count is 1), level 2 yields \<open>[0,1]\<close> and \<open>[1,0]\<close> again (the
  assignments that restore one original value), and the search returns the four
  candidates \<open>[1,0], [0,1], [0,1], [1,0]\<close> in this order, each with result 1.
\<close>

theorem scenario_B:
  "revision (sum_kb sum_forward) 0 [PInt 0, PInt 0] (PInt 1) x = Inr ([], [])
   \<and> revision (sum_kb sum_forward) 1 [PInt 0, PInt 0] (PInt 1) x
        = Inr ([[PInt 1, PInt 0], [PInt 0, PInt 1]], [PInt 1, PInt 1])
   \<and> revision (sum_kb sum_forward) 2 [PInt 0, PInt 0] (PInt 1) x
        = Inr ([[PInt 0, PInt 1], [PInt 1, PInt 0]], [PInt 1, PInt 1])
   \<and> abduce_by_search (sum_kb sum_forward) [PInt 0, PInt 0] (PInt 1) x 2 1
        = Inr ([[PInt 1, PInt 0], [PInt 0, PInt 1], [PInt 0, PInt 1], [PInt 1, PInt 0]],
               [PInt 1, PInt 1, PInt 1, PInt 1])"
  by code_simp

section \<open>The enumerations and the loops of the search\<close>

lemma product_repeat_iff:
  "vs \<in> set (product_repeat xs k) \<longleftrightarrow> length vs = k \<and> set vs \<subseteq> set xs"
proof (induction k arbitrary: vs)
  case 0
  show ?case by auto
next
  case (Suc k)
  show ?case
  proof (cases vs)
    case Nil
    then show ?thesis by auto
  next
    case (Cons v ws)
    then show ?thesis using Suc.IH [of ws] by auto
  qed
qed

lemma combinations_length:
  "ys \<in> set (combinations xs k) \<Longrightarrow> length ys = k \<and> set ys \<subseteq> set xs"
  by (induction xs k arbitrary: ys rule: combinations.induct) fastforce+

lemma filter_in_combinations:
  "filter P xs \<in> set (combinations xs (length (filter P xs)))"
proof (induction xs)
  case Nil
  show ?case by simp
next
  case (Cons a xs)
  show ?case
  proof (cases "P a")
    case True
    then show ?thesis using Cons.IH by simp
  next
    case False
    then show ?thesis using Cons.IH by (cases "length (filter P xs)") auto
  qed
qed

lemma list_setitem_nat:
  "n < length xs \<Longrightarrow> list_setitem xs (int n) v = Inr (xs[n := v])"
  by (simp add: list_setitem_def)

lemma overlay_nat_sound:
  "overlay cand (map int ns) vs = Inr c \<Longrightarrow> set ns \<subseteq> {..<length cand} \<Longrightarrow>
   length c = length cand \<and>
   (\<forall>i<length cand. c ! i = cand ! i \<or> (i \<in> set ns \<and> c ! i \<in> set vs))"
proof (induction ns arbitrary: cand vs)
  case Nil
  then show ?case by simp
next
  case (Cons n ns)
  then obtain v ws where vs: "vs = v # ws" by (cases vs) auto
  from Cons.prems have n: "n < length cand" by simp
  from Cons.prems vs n have ov: "overlay (cand[n := v]) (map int ns) ws = Inr c"
    by (simp add: list_setitem_nat)
  from Cons.prems have "set ns \<subseteq> {..<length (cand[n := v])}" by simp
  from Cons.IH [OF ov this]
  have len: "length c = length cand"
    and ih: "\<forall>i<length cand. c ! i = cand[n := v] ! i \<or> (i \<in> set ns \<and> c ! i \<in> set ws)"
    by simp_all
  show ?case
  proof (intro conjI allI impI)
    show "length c = length cand" by (rule len)
  next
    fix i assume i: "i < length cand"
    with ih have "c ! i = cand[n := v] ! i \<or> (i \<in> set ns \<and> c ! i \<in> set ws)" by blast
    then show "c ! i = cand ! i \<or> (i \<in> set (n # ns) \<and> c ! i \<in> set vs)"
      using i n vs by (cases "i = n") auto
  qed
qed

lemma overlay_nat_complete:
  "set ns \<subseteq> {..<length cand} \<Longrightarrow> length c = length cand \<Longrightarrow>
   (\<forall>i<length cand. i \<notin> set ns \<longrightarrow> c ! i = cand ! i) \<Longrightarrow>
   overlay cand (map int ns) (map ((!) c) ns) = Inr c"
proof (induction ns arbitrary: cand)
  case Nil
  then have "cand = c" by (auto intro: nth_equalityI)
  then show ?case by simp
next
  case (Cons n ns)
  from Cons.prems have n: "n < length cand" by simp
  have "overlay (cand[n := c ! n]) (map int ns) (map ((!) c) ns) = Inr c"
  proof (rule Cons.IH)
    show "set ns \<subseteq> {..<length (cand[n := c ! n])}" using Cons.prems by simp
    show "length c = length (cand[n := c ! n])" using Cons.prems by simp
    show "\<forall>i<length (cand[n := c ! n]). i \<notin> set ns \<longrightarrow> c ! i = cand[n := c ! n] ! i"
      using Cons.prems by (auto simp: nth_list_update)
  qed
  then show ?case using n by (simp add: list_setitem_nat)
qed

lemma revise_loop_sound:
  "revise_loop kb pl y x ridx cs (ca, ra) = Inr (cands, rs) \<Longrightarrow> c \<in> set cands \<Longrightarrow>
   c \<in> set ca \<or> (\<exists>v\<in>set cs. \<exists>r. overlay pl ridx v = Inr c
      \<and> call_logic_forward kb c x = Inr r \<and> check_equal (max_err kb) r y)"
proof (induction cs arbitrary: ca ra)
  case Nil
  then show ?case by simp
next
  case (Cons v cs)
  from Cons.prems(1) obtain cand r where
    ov: "overlay pl ridx v = Inr cand" and call: "call_logic_forward kb cand x = Inr r"
    by (auto split: sum.splits)
  show ?case
  proof (cases "check_equal (max_err kb) r y")
    case True
    with Cons.prems(1) ov call
    have "revise_loop kb pl y x ridx cs (ca @ [cand], ra @ [r]) = Inr (cands, rs)" by simp
    from Cons.IH [OF this Cons.prems(2)] show ?thesis using ov call True by auto
  next
    case False
    with Cons.prems(1) ov call
    have "revise_loop kb pl y x ridx cs (ca, ra) = Inr (cands, rs)" by simp
    from Cons.IH [OF this Cons.prems(2)] show ?thesis by auto
  qed
qed

lemma revise_loop_complete:
  "revise_loop kb pl y x ridx cs (ca, ra) = Inr (cands, rs) \<Longrightarrow>
   set ca \<subseteq> set cands \<and>
   (\<forall>v\<in>set cs. \<forall>c r. overlay pl ridx v = Inr c \<longrightarrow> call_logic_forward kb c x = Inr r
      \<longrightarrow> check_equal (max_err kb) r y \<longrightarrow> c \<in> set cands)"
proof (induction cs arbitrary: ca ra)
  case Nil
  then show ?case by simp
next
  case (Cons v cs)
  from Cons.prems(1) obtain cand r where
    ov: "overlay pl ridx v = Inr cand" and call: "call_logic_forward kb cand x = Inr r"
    by (auto split: sum.splits)
  show ?case
  proof (cases "check_equal (max_err kb) r y")
    case True
    with Cons.prems(1) ov call
    have "revise_loop kb pl y x ridx cs (ca @ [cand], ra @ [r]) = Inr (cands, rs)" by simp
    from Cons.IH [OF this] show ?thesis using ov call True by auto
  next
    case False
    with Cons.prems(1) ov call
    have "revise_loop kb pl y x ridx cs (ca, ra) = Inr (cands, rs)" by simp
    from Cons.IH [OF this] show ?thesis using ov call False by auto
  qed
qed

lemma revision_loop_sound:
  "revision_loop kb pl y x combos (ca, ra) = Inr (cands, rs) \<Longrightarrow> c \<in> set cands \<Longrightarrow>
   c \<in> set ca \<or> (\<exists>ns\<in>set combos. \<exists>nc nr. revise_at_idx kb pl y x (map int ns) = Inr (nc, nr)
      \<and> c \<in> set nc)"
proof (induction combos arbitrary: ca ra)
  case Nil
  then show ?case by simp
next
  case (Cons ns combos)
  from Cons.prems(1) obtain nc nr where
    rv: "revise_at_idx kb pl y x (map int ns) = Inr (nc, nr)"
    and rest: "revision_loop kb pl y x combos (ca @ nc, ra @ nr) = Inr (cands, rs)"
    by (auto split: sum.splits)
  from Cons.IH [OF rest Cons.prems(2)] show ?case using rv by auto
qed

lemma revision_loop_complete:
  "revision_loop kb pl y x combos (ca, ra) = Inr (cands, rs) \<Longrightarrow>
   set ca \<subseteq> set cands \<and>
   (\<forall>ns\<in>set combos. \<exists>nc nr. revise_at_idx kb pl y x (map int ns) = Inr (nc, nr)
      \<and> set nc \<subseteq> set cands)"
proof (induction combos arbitrary: ca ra)
  case Nil
  then show ?case by simp
next
  case (Cons ns combos)
  from Cons.prems(1) obtain nc nr where
    rv: "revise_at_idx kb pl y x (map int ns) = Inr (nc, nr)"
    and rest: "revision_loop kb pl y x combos (ca @ nc, ra @ nr) = Inr (cands, rs)"
    by (auto split: sum.splits)
  from Cons.IH [OF rest] show ?case using rv by auto
qed

lemma revision_sound:
  assumes "revision kb L pl y x = Inr (nc, nr)" and "c \<in> set nc"
  shows "\<exists>ns vs r. ns \<in> set (combinations [0..<length pl] L)
      \<and> vs \<in> set (product_repeat (pseudo_label_list kb) L)
      \<and> overlay pl (map int ns) vs = Inr c
      \<and> call_logic_forward kb c x = Inr r \<and> check_equal (max_err kb) r y"
proof -
  from assms obtain ns nc' nr' where ns: "ns \<in> set (combinations [0..<length pl] L)"
    and rv: "revise_at_idx kb pl y x (map int ns) = Inr (nc', nr')" and c: "c \<in> set nc'"
    unfolding revision_def by (fastforce dest: revision_loop_sound)
  from ns have len: "length ns = L" by (simp add: combinations_length)
  from rv c len obtain v r where "v \<in> set (product_repeat (pseudo_label_list kb) L)"
    "overlay pl (map int ns) v = Inr c" "call_logic_forward kb c x = Inr r"
    "check_equal (max_err kb) r y"
    unfolding revise_at_idx_def by (fastforce dest: revise_loop_sound)
  with ns show ?thesis by blast
qed

lemma revision_complete:
  assumes "revision kb L pl y x = Inr (nc, nr)"
    and "ns \<in> set (combinations [0..<length pl] L)"
    and "vs \<in> set (product_repeat (pseudo_label_list kb) L)"
    and "overlay pl (map int ns) vs = Inr c"
    and "call_logic_forward kb c x = Inr r" and "check_equal (max_err kb) r y"
  shows "c \<in> set nc"
proof -
  from assms(1,2) obtain nc' nr' where
    rv: "revise_at_idx kb pl y x (map int ns) = Inr (nc', nr')" and sub: "set nc' \<subseteq> set nc"
    unfolding revision_def by (fastforce dest: revision_loop_complete)
  from assms(2) have len: "length ns = L" by (simp add: combinations_length)
  from rv len have "revise_loop kb pl y x (map int ns)
      (product_repeat (pseudo_label_list kb) L) ([], []) = Inr (nc', nr')"
    by (simp add: revise_at_idx_def)
  from revise_loop_complete [OF this] assms(3-6) have "c \<in> set nc'" by blast
  with sub show ?thesis by blast
qed

lemma revised_positions_overlay:
  assumes ov: "overlay pl (map int ns) vs = Inr c"
    and ns: "ns \<in> set (combinations [0..<length pl] L)"
    and vs: "vs \<in> set (product_repeat labels L)"
  shows "length c = length pl"
    and "revision_count pl c \<le> L"
    and "revised_positions pl c \<in> set (combinations [0..<length pl] (revision_count pl c))"
    and "map ((!) c) (revised_positions pl c) \<in> set (product_repeat labels (revision_count pl c))"
    and "overlay pl (map int (revised_positions pl c)) (map ((!) c) (revised_positions pl c)) = Inr c"
proof -
  from ns have nsl: "length ns = L" and nss: "set ns \<subseteq> {..<length pl}"
    using combinations_length [of ns "[0..<length pl]" L] by auto
  from vs have vsl: "set vs \<subseteq> set labels" by (simp add: product_repeat_iff)
  from overlay_nat_sound [OF ov nss]
  have len: "length c = length pl"
    and pos: "\<forall>i<length pl. c ! i = pl ! i \<or> (i \<in> set ns \<and> c ! i \<in> set vs)" by simp_all
  show "length c = length pl" by (rule len)
  have sub: "set (revised_positions pl c) \<subseteq> set ns"
    using pos by (auto simp: revised_positions_def)
  have dist: "distinct (revised_positions pl c)" by (simp add: revised_positions_def)
  have "revision_count pl c = card (set (revised_positions pl c))"
    using dist by (simp add: revision_count_def distinct_card)
  also have "\<dots> \<le> card (set ns)" using sub by (simp add: card_mono)
  also have "\<dots> \<le> L" using nsl card_length [of ns] by simp
  finally show "revision_count pl c \<le> L" .
  show "revised_positions pl c \<in> set (combinations [0..<length pl] (revision_count pl c))"
    unfolding revision_count_def revised_positions_def by (rule filter_in_combinations)
  show "map ((!) c) (revised_positions pl c) \<in> set (product_repeat labels (revision_count pl c))"
    using pos vsl by (auto simp: product_repeat_iff revision_count_def revised_positions_def)
  show "overlay pl (map int (revised_positions pl c)) (map ((!) c) (revised_positions pl c)) = Inr c"
    by (rule overlay_nat_complete) (auto simp: revised_positions_def len)
qed

lemma first_loop_Break:
  "first_loop kb pl y x mx levels ([], ra) = Inr (Break mk c0 r0) \<Longrightarrow>
   \<exists>pre post nr. levels = pre @ mk # post
     \<and> (\<forall>j\<in>set pre. int j < mx \<and> (\<exists>r. revision kb j pl y x = Inr ([], r)))
     \<and> revision kb mk pl y x = Inr (c0, nr) \<and> c0 \<noteq> []"
proof (induction levels arbitrary: ra)
  case Nil
  then show ?case by simp
next
  case (Cons k levels)
  from Cons.prems obtain nc nr where rv: "revision kb k pl y x = Inr (nc, nr)"
    by (auto split: sum.splits)
  show ?case
  proof (cases "nc = []")
    case False
    with Cons.prems rv have "mk = k" "c0 = nc" by (auto simp: Let_def)
    with rv False show ?thesis by fastforce
  next
    case True
    with Cons.prems rv have lt: "int k < mx"
      and rest: "first_loop kb pl y x mx levels ([], ra @ nr) = Inr (Break mk c0 r0)"
      by (auto simp: Let_def split: if_splits)
    from Cons.IH [OF rest] obtain pre post nr' where
      "levels = pre @ mk # post"
      "\<forall>j\<in>set pre. int j < mx \<and> (\<exists>r. revision kb j pl y x = Inr ([], r))"
      "revision kb mk pl y x = Inr (c0, nr')" "c0 \<noteq> []" by blast
    with rv True lt have "k # levels = (k # pre) @ mk # post
      \<and> (\<forall>j\<in>set (k # pre). int j < mx \<and> (\<exists>r. revision kb j pl y x = Inr ([], r)))
      \<and> revision kb mk pl y x = Inr (c0, nr') \<and> c0 \<noteq> []" by simp
    then show ?thesis by blast
  qed
qed

lemma first_loop_not_Break:
  "first_loop kb pl y x mx levels ([], ra) = Inr (Exhausted c0 r0) \<Longrightarrow> c0 = []"
  by (induction levels arbitrary: ra) (auto simp: Let_def split: sum.splits if_splits)

lemma second_loop_sound:
  "second_loop kb pl y x mx levels (ca, ra) = Inr (cands, rs) \<Longrightarrow> c \<in> set cands \<Longrightarrow>
   c \<in> set ca \<or> (\<exists>k\<in>set levels. int k \<le> mx
      \<and> (\<exists>nc nr. revision kb k pl y x = Inr (nc, nr) \<and> c \<in> set nc))"
proof (induction levels arbitrary: ca ra)
  case Nil
  then show ?case by simp
next
  case (Cons k levels)
  show ?case
  proof (cases "int k > mx")
    case True
    with Cons.prems show ?thesis by simp
  next
    case False
    with Cons.prems(1) obtain nc nr where rv: "revision kb k pl y x = Inr (nc, nr)"
      and rest: "second_loop kb pl y x mx levels (ca @ nc, ra @ nr) = Inr (cands, rs)"
      by (auto split: sum.splits)
    from Cons.IH [OF rest Cons.prems(2)] show ?thesis using rv False by auto
  qed
qed

lemma upt_split_prefix:
  assumes "[0..<m] = pre @ k # post"
  shows "set pre = {..<k}"
proof -
  have lp: "length pre < m" using arg_cong [OF assms, of length] by simp
  have "[0..<m] ! length pre = k" using assms by (simp add: nth_append)
  with lp have k: "length pre = k" by simp
  have "pre = take k [0..<m]" using assms k by simp
  also have "\<dots> = [0..<k]" using lp k by (simp add: take_upt)
  finally show ?thesis by auto
qed

lemma abduce_by_search_levels:
  assumes run: "abduce_by_search kb pl y x mx req = Inr (cands, rs)" and ne: "cands \<noteq> []"
  shows "\<exists>mk. (\<exists>nc nr. revision kb mk pl y x = Inr (nc, nr) \<and> nc \<noteq> [])
    \<and> (\<forall>j<mk. int j < mx \<and> (\<exists>nr. revision kb j pl y x = Inr ([], nr)))
    \<and> (\<forall>c\<in>set cands. \<exists>L nc nr. mk \<le> L \<and> (L = mk \<or> (int L \<le> int mk + req \<and> int L \<le> mx))
          \<and> revision kb L pl y x = Inr (nc, nr) \<and> c \<in> set nc)"
proof -
  from run obtain fl where
    fl: "first_loop kb pl y x mx [0..<length pl + 1] ([], []) = Inr fl"
    unfolding abduce_by_search_def by (auto split: sum.splits)
  from run fl ne obtain mk c0 r0 where brk: "fl = Break mk c0 r0"
    and snd: "second_loop kb pl y x mx [mk + 1..<nat (int mk + req + 1)] (c0, r0) = Inr (cands, rs)"
    unfolding abduce_by_search_def by (cases fl) auto
  from first_loop_Break [OF fl [unfolded brk]] obtain pre post nr where
    sp: "[0..<length pl + 1] = pre @ mk # post"
    and low: "\<forall>j\<in>set pre. int j < mx \<and> (\<exists>r. revision kb j pl y x = Inr ([], r))"
    and at: "revision kb mk pl y x = Inr (c0, nr)" and c0: "c0 \<noteq> []" by blast
  from upt_split_prefix [OF sp] low
  have low': "\<forall>j<mk. int j < mx \<and> (\<exists>nr. revision kb j pl y x = Inr ([], nr))" by auto
  have "\<forall>c\<in>set cands. \<exists>L nc nr. mk \<le> L \<and> (L = mk \<or> (int L \<le> int mk + req \<and> int L \<le> mx))
          \<and> revision kb L pl y x = Inr (nc, nr) \<and> c \<in> set nc"
  proof
    fix c assume "c \<in> set cands"
    from second_loop_sound [OF snd this]
    show "\<exists>L nc nr. mk \<le> L \<and> (L = mk \<or> (int L \<le> int mk + req \<and> int L \<le> mx))
          \<and> revision kb L pl y x = Inr (nc, nr) \<and> c \<in> set nc"
    proof
      assume "c \<in> set c0"
      with at show ?thesis by blast
    next
      assume "\<exists>k\<in>set [mk + 1..<nat (int mk + req + 1)]. int k \<le> mx
        \<and> (\<exists>nc nr. revision kb k pl y x = Inr (nc, nr) \<and> c \<in> set nc)"
      then obtain k nc' nr' where k: "mk + 1 \<le> k" "k < nat (int mk + req + 1)" "int k \<le> mx"
        and rv: "revision kb k pl y x = Inr (nc', nr')" "c \<in> set nc'" by auto
      from k have "mk \<le> k" "int k \<le> int mk + req" by linarith+
      with k(3) rv show ?thesis by blast
    qed
  qed
  with at c0 low' show ?thesis by blast
qed

section \<open>Revision counts of the returned candidates\<close>

text \<open>
  C1: when the search returns a non-empty candidate list (with \<^verbatim>\<open>max_revision_num \<ge> 0\<close>
  and \<^verbatim>\<open>require_more_revision \<ge> 0\<close>), there is a minimal revision count \<open>mk\<close>: level \<open>mk\<close>
  has a match and no lower level has one; every returned candidate has the length of the
  original sequence and differs from it at \<open>k\<close> positions with
  \<open>mk \<le> k \<le> min (mk + require_more_revision) max_revision_num\<close>; and with
  \<^verbatim>\<open>require_more_revision = 0\<close> every returned candidate differs at exactly \<open>mk\<close> positions.
\<close>

theorem search_revision_counts:
  assumes run: "abduce_by_search kb pl y x mx req = Inr (cands, rs)" and ne: "cands \<noteq> []"
    and mx: "0 \<le> mx" and req: "0 \<le> req"
  shows "\<exists>mk. (\<exists>nc nr. revision kb mk pl y x = Inr (nc, nr) \<and> nc \<noteq> [])
    \<and> (\<forall>j<mk. \<exists>nr. revision kb j pl y x = Inr ([], nr))
    \<and> (\<forall>c\<in>set cands. length c = length pl \<and> int mk \<le> int (revision_count pl c)
          \<and> int (revision_count pl c) \<le> min (int mk + req) mx)
    \<and> (req = 0 \<longrightarrow> (\<forall>c\<in>set cands. revision_count pl c = mk))"
proof -
  from abduce_by_search_levels [OF run ne] obtain mk where
    at: "\<exists>nc nr. revision kb mk pl y x = Inr (nc, nr) \<and> nc \<noteq> []"
    and low: "\<forall>j<mk. int j < mx \<and> (\<exists>nr. revision kb j pl y x = Inr ([], nr))"
    and lev: "\<forall>c\<in>set cands. \<exists>L nc nr. mk \<le> L \<and> (L = mk \<or> (int L \<le> int mk + req \<and> int L \<le> mx))
          \<and> revision kb L pl y x = Inr (nc, nr) \<and> c \<in> set nc" by blast
  have mk_mx: "int mk \<le> mx"
  proof (cases mk)
    case 0
    with mx show ?thesis by simp
  next
    case (Suc j)
    with low have "int j < mx" by simp
    with Suc show ?thesis by simp
  qed
  have bounds: "length c = length pl \<and> int mk \<le> int (revision_count pl c)
          \<and> int (revision_count pl c) \<le> min (int mk + req) mx" if c: "c \<in> set cands" for c
  proof -
    from lev c obtain L nc nr where L: "mk \<le> L" "L = mk \<or> (int L \<le> int mk + req \<and> int L \<le> mx)"
      and rv: "revision kb L pl y x = Inr (nc, nr)" "c \<in> set nc" by blast
    from L mk_mx req have Lb: "int L \<le> min (int mk + req) mx" by auto
    from revision_sound [OF rv] obtain ns vs r where
      ns: "ns \<in> set (combinations [0..<length pl] L)"
      and vs: "vs \<in> set (product_repeat (pseudo_label_list kb) L)"
      and ov: "overlay pl (map int ns) vs = Inr c"
      and call: "call_logic_forward kb c x = Inr r" and chk: "check_equal (max_err kb) r y"
      by blast
    note rp = revised_positions_overlay [OF ov ns vs]
    have "mk \<le> revision_count pl c"
    proof (rule ccontr)
      assume "\<not> mk \<le> revision_count pl c"
      then have "revision_count pl c < mk" by simp
      with low obtain nr' where "revision kb (revision_count pl c) pl y x = Inr ([], nr')" by blast
      from revision_complete [OF this rp(3) rp(4) rp(5) call chk] show False by simp
    qed
    with rp(1) rp(2) Lb show ?thesis by linarith
  qed
  have "req = 0 \<longrightarrow> (\<forall>c\<in>set cands. revision_count pl c = mk)"
    using bounds by fastforce
  with at low bounds show ?thesis by blast
qed

theorem search_revision_counts_witness:
  "(\<exists>mk. (\<exists>nc nr. revision (sum_kb sum_forward) mk [PInt 0, PInt 0] (PInt 1) PNone = Inr (nc, nr) \<and> nc \<noteq> [])
    \<and> (\<forall>j<mk. \<exists>nr. revision (sum_kb sum_forward) j [PInt 0, PInt 0] (PInt 1) PNone = Inr ([], nr))
    \<and> (\<forall>c\<in>set [[PInt 1, PInt 0], [PInt 0, PInt 1], [PInt 0, PInt 1], [PInt 1, PInt 0]].
          length c = length [PInt 0, PInt 0]
          \<and> int mk \<le> int (revision_count [PInt 0, PInt 0] c)
          \<and> int (revision_count [PInt 0, PInt 0] c) \<le> min (int mk + 1) 2))
   \<and> (\<exists>mk. (\<exists>nc nr. revision (sum_kb sum_forward) mk [PInt 0, PInt 0] (PInt 2) PNone = Inr (nc, nr) \<and> nc \<noteq> [])
    \<and> (\<forall>j<mk. \<exists>nr. revision (sum_kb sum_forward) j [PInt 0, PInt 0] (PInt 2) PNone = Inr ([], nr))
    \<and> (\<forall>c\<in>set [[PInt 1, PInt 1]]. revision_count [PInt 0, PInt 0] c = mk))"
proof -
  have run1: "abduce_by_search (sum_kb sum_forward) [PInt 0, PInt 0] (PInt 1) PNone 2 1
    = Inr ([[PInt 1, PInt 0], [PInt 0, PInt 1], [PInt 0, PInt 1], [PInt 1, PInt 0]],
           [PInt 1, PInt 1, PInt 1, PInt 1])" by code_simp
  have run2: "abduce_by_search (sum_kb sum_forward) [PInt 0, PInt 0] (PInt 2) PNone 2 0
    = Inr ([[PInt 1, PInt 1]], [PInt 2])" by code_simp
  from search_revision_counts [OF run1] have 1: "\<exists>mk. (\<exists>nc nr. revision (sum_kb sum_forward) mk [PInt 0, PInt 0] (PInt 1) PNone = Inr (nc, nr) \<and> nc \<noteq> [])
    \<and> (\<forall>j<mk. \<exists>nr. revision (sum_kb sum_forward) j [PInt 0, PInt 0] (PInt 1) PNone = Inr ([], nr))
    \<and> (\<forall>c\<in>set [[PInt 1, PInt 0], [PInt 0, PInt 1], [PInt 0, PInt 1], [PInt 1, PInt 0]].
          length c = length [PInt 0, PInt 0]
          \<and> int mk \<le> int (revision_count [PInt 0, PInt 0] c)
          \<and> int (revision_count [PInt 0, PInt 0] c) \<le> min (int mk + 1) 2)" by simp
  from search_revision_counts [OF run2] have 2: "\<exists>mk. (\<exists>nc nr. revision (sum_kb sum_forward) mk [PInt 0, PInt 0] (PInt 2) PNone = Inr (nc, nr) \<and> nc \<noteq> [])
    \<and> (\<forall>j<mk. \<exists>nr. revision (sum_kb sum_forward) j [PInt 0, PInt 0] (PInt 2) PNone = Inr ([], nr))
    \<and> (\<forall>c\<in>set [[PInt 1, PInt 1]]. revision_count [PInt 0, PInt 0] c = mk)" by simp
  from 1 2 show ?thesis by blast
qed

section \<open>Label-space membership\<close>

lemma list_setitem_set:
  "list_setitem xs i v = Inr ys \<Longrightarrow> length ys = length xs \<and> set ys \<subseteq> insert v (set xs)"
  using set_update_subset_insert [of xs _ v]
  by (auto simp: list_setitem_def Let_def split: if_splits)

lemma overlay_set:
  "overlay cand idxs vs = Inr c \<Longrightarrow> length c = length cand \<and> set c \<subseteq> set cand \<union> set vs"
proof (induction cand idxs vs rule: overlay.induct)
  case (1 candidate c)
  then show ?case by simp
next
  case (2 candidate idx idxs)
  then show ?case by simp
next
  case (3 candidate idx idxs v vs)
  from "3.prems" obtain cand' where si: "list_setitem candidate idx v = Inr cand'"
    and ov: "overlay cand' idxs vs = Inr c" by (auto split: sum.splits)
  from "3.IH" [OF si ov] list_setitem_set [OF si] show ?case by auto
qed

lemma revise_at_idx_label_space:
  assumes rv: "revise_at_idx kb pl y x ridx = Inr (cands, rs)" and c: "c \<in> set cands"
  shows "length c = length pl \<and> set c \<subseteq> set pl \<union> set (pseudo_label_list kb)"
proof -
  from rv c obtain v where v: "v \<in> set (product_repeat (pseudo_label_list kb) (length ridx))"
    and ov: "overlay pl ridx v = Inr c"
    unfolding revise_at_idx_def by (fastforce dest: revise_loop_sound)
  from v have "set v \<subseteq> set (pseudo_label_list kb)" by (simp add: product_repeat_iff)
  with overlay_set [OF ov] show ?thesis by auto
qed

text \<open>
  C9, as stated, fails: a position that is not revised keeps the original value, which
  need not belong to the label space. With label space \<open>[0, 1]\<close> and the sequence
  \<open>[2, 0]\<close>, the candidate \<open>[2, 0]\<close> is returned by \<^verbatim>\<open>revise_at_idx\<close> and by the search.
\<close>

theorem candidates_in_label_space_counterexample:
  "revise_at_idx (sum_kb sum_forward) [PInt 2, PInt 0] (PInt 2) PNone [1]
      = Inr ([[PInt 2, PInt 0]], [PInt 2])
   \<and> abduce_by_search (sum_kb sum_forward) [PInt 2, PInt 0] (PInt 2) PNone 0 0
      = Inr ([[PInt 2, PInt 0]], [PInt 2])
   \<and> PInt 2 \<notin> set (pseudo_label_list (sum_kb sum_forward))"
  by code_simp

text \<open>
  C9 (amended): when every value of the input sequence belongs to \<^verbatim>\<open>pseudo_label_list\<close>,
  every candidate returned by \<^verbatim>\<open>KBBase.revise_at_idx\<close>, and every candidate returned by the
  search, has the length of the input and only values of \<^verbatim>\<open>pseudo_label_list\<close>.
\<close>

theorem candidates_in_label_space:
  assumes "set pl \<subseteq> set (pseudo_label_list kb)"
  shows "(revise_at_idx kb pl y x ridx = Inr (cands, rs) \<longrightarrow>
            (\<forall>c\<in>set cands. length c = length pl \<and> set c \<subseteq> set (pseudo_label_list kb)))
       \<and> (abduce_by_search kb pl y x mx req = Inr (cands', rs') \<longrightarrow>
            (\<forall>c\<in>set cands'. length c = length pl \<and> set c \<subseteq> set (pseudo_label_list kb)))"
proof (rule conjI; rule impI; rule ballI)
  fix c assume "revise_at_idx kb pl y x ridx = Inr (cands, rs)" "c \<in> set cands"
  from revise_at_idx_label_space [OF this] assms
  show "length c = length pl \<and> set c \<subseteq> set (pseudo_label_list kb)" by auto
next
  fix c assume run: "abduce_by_search kb pl y x mx req = Inr (cands', rs')" and c: "c \<in> set cands'"
  then have "cands' \<noteq> []" by auto
  from abduce_by_search_levels [OF run this] c obtain L nc nr where
    rv: "revision kb L pl y x = Inr (nc, nr)" "c \<in> set nc" by blast
  from revision_sound [OF rv] obtain ns vs where
    vs: "vs \<in> set (product_repeat (pseudo_label_list kb) L)"
    and ov: "overlay pl (map int ns) vs = Inr c" by blast
  from vs have "set vs \<subseteq> set (pseudo_label_list kb)" by (simp add: product_repeat_iff)
  with overlay_set [OF ov] assms
  show "length c = length pl \<and> set c \<subseteq> set (pseudo_label_list kb)" by auto
qed

theorem candidates_in_label_space_witness:
  "set [PInt 0, PInt 0] \<subseteq> set (pseudo_label_list (sum_kb sum_forward))
   \<and> revise_at_idx (sum_kb sum_forward) [PInt 0, PInt 0] (PInt 1) PNone [1]
       = Inr ([[PInt 0, PInt 1]], [PInt 1])
   \<and> abduce_by_search (sum_kb sum_forward) [PInt 0, PInt 0] (PInt 2) PNone 2 0
       = Inr ([[PInt 1, PInt 1]], [PInt 2])
   \<and> length [PInt 0, PInt 1] = length [PInt 0, PInt 0]
   \<and> set [PInt 0, PInt 1] \<subseteq> set (pseudo_label_list (sum_kb sum_forward))
   \<and> set [PInt 1, PInt 1] \<subseteq> set (pseudo_label_list (sum_kb sum_forward))"
proof -
  have h: "set [PInt 0, PInt 0] \<subseteq> set (pseudo_label_list (sum_kb sum_forward))"
    by code_simp
  have r1: "revise_at_idx (sum_kb sum_forward) [PInt 0, PInt 0] (PInt 1) PNone [1]
       = Inr ([[PInt 0, PInt 1]], [PInt 1])" by code_simp
  have r2: "abduce_by_search (sum_kb sum_forward) [PInt 0, PInt 0] (PInt 2) PNone 2 0
       = Inr ([[PInt 1, PInt 1]], [PInt 2])" by code_simp
  from candidates_in_label_space [OF h, where y = "PInt 1" and x = PNone and ridx = "[1]"
      and cands = "[[PInt 0, PInt 1]]" and rs = "[PInt 1]" and mx = 2 and req = 0
      and cands' = "[[PInt 1, PInt 1]]" and rs' = "[PInt 2]"] r1 r2 h
  show ?thesis by simp
qed

section \<open>The cache on concrete inputs\<close>

text \<open>
  C7: no cache operation is meant to raise. On an instance with \<^verbatim>\<open>cache_size = 1\<close>, a
  first lookup fills the cache (\<^verbatim>\<open>full\<close> becomes true), \<^verbatim>\<open>clear_cache\<close> empties the
  dictionary but leaves \<^verbatim>\<open>full\<close> and the linked list as they are, and the next lookup
  with another key takes the eviction branch, where \<^verbatim>\<open>del self.cache_dict[oldkey]\<close>
  raises \<^verbatim>\<open>KeyError\<close>.
\<close>

theorem lookup_after_clear_KeyError:
  "fst (run_ops (Cache_init abduce_by_search)
     [Call (sized_kb 1) [PInt 0, PInt 0] (PInt 1) PNone 2 0,
      Clear_cache,
      Call (sized_kb 1) [PInt 0, PInt 0] (PInt 2) PNone 2 0])
   = [Inr (Some ([[PInt 1, PInt 0], [PInt 0, PInt 1]], [PInt 1, PInt 1])),
      Inr None,
      Inl KeyError]"
  by code_simp

section \<open>Assignments to the fields of a link\<close>

lemma length_set_field [simp]:
  "length (set_PREV h a p) = length h" "length (set_NEXT h a n) = length h"
  "length (set_KEY h a k) = length h" "length (set_RESULT h a r) = length h"
  by (simp_all add: set_PREV_def set_NEXT_def set_KEY_def set_RESULT_def)

lemma nth_update_field:
  "f (h[a := g (h ! a)] ! b) = (if b = a \<and> a < length h then f (g (h ! a)) else f (h ! b))"
  by (cases "a < length h") (auto simp: nth_list_update list_update_beyond)

lemma set_PREV_other [simp]:
  "NEXT (set_PREV h a p ! b) = NEXT (h ! b)"
  "KEY (set_PREV h a p ! b) = KEY (h ! b)"
  "RESULT (set_PREV h a p ! b) = RESULT (h ! b)"
  unfolding set_PREV_def by (simp_all add: nth_update_field [where g = "\<lambda>l. l\<lparr>PREV := p\<rparr>"])

lemma set_NEXT_other [simp]:
  "PREV (set_NEXT h a n ! b) = PREV (h ! b)"
  "KEY (set_NEXT h a n ! b) = KEY (h ! b)"
  "RESULT (set_NEXT h a n ! b) = RESULT (h ! b)"
  unfolding set_NEXT_def by (simp_all add: nth_update_field [where g = "\<lambda>l. l\<lparr>NEXT := n\<rparr>"])

lemma set_KEY_other [simp]:
  "PREV (set_KEY h a k ! b) = PREV (h ! b)"
  "NEXT (set_KEY h a k ! b) = NEXT (h ! b)"
  "RESULT (set_KEY h a k ! b) = RESULT (h ! b)"
  unfolding set_KEY_def by (simp_all add: nth_update_field [where g = "\<lambda>l. l\<lparr>KEY := k\<rparr>"])

lemma set_RESULT_other [simp]:
  "PREV (set_RESULT h a r ! b) = PREV (h ! b)"
  "NEXT (set_RESULT h a r ! b) = NEXT (h ! b)"
  "KEY (set_RESULT h a r ! b) = KEY (h ! b)"
  unfolding set_RESULT_def by (simp_all add: nth_update_field [where g = "\<lambda>l. l\<lparr>RESULT := r\<rparr>"])

lemma set_PREV_same:
  "a < length h \<Longrightarrow> PREV (set_PREV h a p ! b) = (if b = a then p else PREV (h ! b))"
  by (simp add: set_PREV_def nth_list_update)

lemma set_NEXT_same:
  "a < length h \<Longrightarrow> NEXT (set_NEXT h a n ! b) = (if b = a then n else NEXT (h ! b))"
  by (simp add: set_NEXT_def nth_list_update)

lemma set_KEY_same:
  "a < length h \<Longrightarrow> KEY (set_KEY h a k ! b) = (if b = a then k else KEY (h ! b))"
  by (simp add: set_KEY_def nth_list_update)

lemma set_RESULT_same:
  "a < length h \<Longrightarrow> RESULT (set_RESULT h a r ! b) = (if b = a then r else RESULT (h ! b))"
  by (simp add: set_RESULT_def nth_list_update)

lemma set_PREV_neq: "b \<noteq> a \<Longrightarrow> PREV (set_PREV h a p ! b) = PREV (h ! b)"
  by (simp add: set_PREV_def)

lemma set_NEXT_neq: "b \<noteq> a \<Longrightarrow> NEXT (set_NEXT h a n ! b) = NEXT (h ! b)"
  by (simp add: set_NEXT_def)

lemma set_KEY_neq: "b \<noteq> a \<Longrightarrow> KEY (set_KEY h a k ! b) = KEY (h ! b)"
  by (simp add: set_KEY_def)

lemma set_RESULT_neq: "b \<noteq> a \<Longrightarrow> RESULT (set_RESULT h a r ! b) = RESULT (h ! b)"
  by (simp add: set_RESULT_def)

lemma cache_hit_facts:
  assumes "cache_hit c lnk = (r, c')"
  shows "r = Inr (RESULT (heap c ! lnk))" and "cache_dict c' = cache_dict c"
    and "Cache.key_func c' = Cache.key_func c" and "has_init c' = has_init c"
    and "RESULT (heap c' ! a) = RESULT (heap c ! a)" and "KEY (heap c' ! a) = KEY (heap c ! a)"
    and "hits c' = hits c + 1" and "misses c' = misses c" and "root c' = root c"
    and "length (heap c') = length (heap c)" and "full c' = full c" and "max_size c' = max_size c"
    and "func c' = func c"
  using assms by (auto simp: cache_hit_def Let_def)

section \<open>Allocated addresses stay allocated\<close>

lemma ptrs_valid_set_PREV: "ptrs_valid h \<Longrightarrow> p < length h \<Longrightarrow> ptrs_valid (set_PREV h a p)"
  unfolding ptrs_valid_def
proof (intro allI impI)
  fix b assume h: "\<forall>a<length h. PREV (h ! a) < length h \<and> NEXT (h ! a) < length h"
    and p: "p < length h" and b: "b < length (set_PREV h a p)"
  show "PREV (set_PREV h a p ! b) < length (set_PREV h a p)
      \<and> NEXT (set_PREV h a p ! b) < length (set_PREV h a p)"
  proof (cases "b = a")
    case True
    with b have "a < length h" by simp
    with True h p b show ?thesis by (simp add: set_PREV_same)
  next
    case False
    with h b show ?thesis by (simp add: set_PREV_neq)
  qed
qed

lemma ptrs_valid_set_NEXT: "ptrs_valid h \<Longrightarrow> n < length h \<Longrightarrow> ptrs_valid (set_NEXT h a n)"
  unfolding ptrs_valid_def
proof (intro allI impI)
  fix b assume h: "\<forall>a<length h. PREV (h ! a) < length h \<and> NEXT (h ! a) < length h"
    and n: "n < length h" and b: "b < length (set_NEXT h a n)"
  show "PREV (set_NEXT h a n ! b) < length (set_NEXT h a n)
      \<and> NEXT (set_NEXT h a n ! b) < length (set_NEXT h a n)"
  proof (cases "b = a")
    case True
    with b have "a < length h" by simp
    with True h n b show ?thesis by (simp add: set_NEXT_same)
  next
    case False
    with h b show ?thesis by (simp add: set_NEXT_neq)
  qed
qed

lemma ptrs_valid_set_KEY: "ptrs_valid h \<Longrightarrow> ptrs_valid (set_KEY h a k)"
  by (simp add: ptrs_valid_def)

lemma ptrs_valid_set_RESULT: "ptrs_valid h \<Longrightarrow> ptrs_valid (set_RESULT h a r)"
  by (simp add: ptrs_valid_def)

lemma ptrs_valid_append:
  assumes "ptrs_valid h" and "p \<le> length h" and "n \<le> length h"
  shows "ptrs_valid (h @ [\<lparr>PREV = p, NEXT = n, KEY = k, RESULT = r\<rparr>])"
  unfolding ptrs_valid_def
proof (intro allI impI)
  fix b assume b: "b < length (h @ [\<lparr>PREV = p, NEXT = n, KEY = k, RESULT = r\<rparr>])"
  show "PREV ((h @ [\<lparr>PREV = p, NEXT = n, KEY = k, RESULT = r\<rparr>]) ! b)
          < length (h @ [\<lparr>PREV = p, NEXT = n, KEY = k, RESULT = r\<rparr>])
      \<and> NEXT ((h @ [\<lparr>PREV = p, NEXT = n, KEY = k, RESULT = r\<rparr>]) ! b)
          < length (h @ [\<lparr>PREV = p, NEXT = n, KEY = k, RESULT = r\<rparr>])"
  proof (cases "b < length h")
    case True
    with assms(1) have "PREV (h ! b) < length h \<and> NEXT (h ! b) < length h"
      by (simp add: ptrs_valid_def)
    with True show ?thesis by (simp add: nth_append)
  next
    case False
    with b have "b = length h" by simp
    with assms(2,3) show ?thesis by simp
  qed
qed

lemma ptrs_validD:
  "ptrs_valid h \<Longrightarrow> a < length h \<Longrightarrow> PREV (h ! a) < length h"
  "ptrs_valid h \<Longrightarrow> a < length h \<Longrightarrow> NEXT (h ! a) < length h"
  by (simp_all add: ptrs_valid_def)

lemma heap_validD:
  "heap_valid c \<Longrightarrow> root c < length (heap c)"
  "heap_valid c \<Longrightarrow> ptrs_valid (heap c)"
  "heap_valid c \<Longrightarrow> map_of (cache_dict c) k = Some a \<Longrightarrow> a < length (heap c)"
  unfolding heap_valid_def by blast+

lemma heap_validI:
  "root c < length (heap c) \<Longrightarrow> ptrs_valid (heap c) \<Longrightarrow>
   (\<And>k a. map_of (cache_dict c) k = Some a \<Longrightarrow> a < length (heap c)) \<Longrightarrow> heap_valid c"
  unfolding heap_valid_def by blast

lemma heap_valid_Cache_init: "heap_valid (Cache_init f)"
  by (rule heap_validI) (simp_all add: Cache_init_def ptrs_valid_def)

lemma heap_valid_clear_cache: "heap_valid c \<Longrightarrow> heap_valid (clear_cache c)"
  by (rule heap_validI) (simp_all add: clear_cache_def heap_validD)

lemma heap_valid_init_cache:
  assumes "heap_valid c"
  shows "heap_valid (init_cache c obj)"
proof (cases "has_init c")
  case True
  with assms show ?thesis by (simp add: init_cache_def)
next
  case False
  show ?thesis
    by (rule heap_validI)
      (simp_all add: init_cache_def False ptrs_valid_append heap_validD(2) [OF assms])
qed

lemma heap_valid_cache_hit:
  assumes v: "heap_valid c" and m: "map_of (cache_dict c) k = Some lnk"
  shows "heap_valid (snd (cache_hit c lnk))"
proof -
  note l = heap_validD(3) [OF v m] and r = heap_validD(1) [OF v] and p = heap_validD(2) [OF v]
  define h2 where "h2 = set_PREV (set_NEXT (heap c) (PREV (heap c ! lnk)) (NEXT (heap c ! lnk)))
    (NEXT (heap c ! lnk)) (PREV (heap c ! lnk))"
  have len2: "length h2 = length (heap c)" by (simp add: h2_def)
  have p2: "ptrs_valid h2" unfolding h2_def
    using l by (intro ptrs_valid_set_PREV ptrs_valid_set_NEXT p) (simp_all add: ptrs_validD [OF p])
  have last: "PREV (h2 ! root c) < length h2"
    using ptrs_validD(1) [OF p2, of "root c"] r len2 by simp
  define h6 where "h6 = set_NEXT (set_PREV (set_PREV (set_NEXT h2 (PREV (h2 ! root c)) lnk)
    (root c) lnk) lnk (PREV (h2 ! root c))) lnk (root c)"
  have p6: "ptrs_valid h6" unfolding h6_def
    using l r last len2 by (intro ptrs_valid_set_PREV ptrs_valid_set_NEXT p2) simp_all
  have eq: "snd (cache_hit c lnk) = c\<lparr>heap := h6, hits := hits c + 1\<rparr>"
    by (simp add: cache_hit_def Let_def h6_def h2_def)
  have len6: "length h6 = length (heap c)" by (simp add: h6_def len2)
  show ?thesis unfolding eq
    by (rule heap_validI) (simp_all add: p6 len6 r heap_validD(3) [OF v])
qed

lemma cache_evict_unfold:
  "cache_evict c key res =
    (case evict_oldkey c key of
       None \<Rightarrow> (Inl KeyError, evict_state c key res)
     | Some k \<Rightarrow>
        (case map_of (cache_dict c) k of
           None \<Rightarrow> (Inl KeyError, evict_state c key res)
         | Some l \<Rightarrow> (Inr (Some res),
             (evict_state c key res)\<lparr>cache_dict :=
                AList.update key (root c) (AList.delete k (cache_dict c))\<rparr>)))"
  by (simp add: cache_evict_def evict_state_def evict_oldkey_def Let_def split: option.split)

lemma cache_insert_unfold:
  "cache_insert c key res =
    (Inr (Some res),
     case max_size c of
       Some n \<Rightarrow> (insert_state c key res)\<lparr>full :=
          (int (length (AList.update key (length (heap c)) (cache_dict c))) \<ge> n)\<rparr>
     | None \<Rightarrow> insert_state c key res)"
  by (simp add: cache_insert_def insert_state_def Let_def split: option.split)

lemma get_from_dict_unfold:
  "get_from_dict c obj pl y x mx req =
    (case Cache.key_func c of
       None \<Rightarrow> (Inl TypeError, c)
     | Some kf \<Rightarrow>
        (case map_of (cache_dict c) (kf (PList pl), kf y, [mx, req]) of
           Some lnk \<Rightarrow> cache_hit c lnk
         | None \<Rightarrow>
            (case func c obj pl y x mx req of
               Inl e \<Rightarrow> (Inl e, count_miss c)
             | Inr res \<Rightarrow>
                if full c then cache_evict (count_miss c) (kf (PList pl), kf y, [mx, req]) res
                else cache_insert (count_miss c) (kf (PList pl), kf y, [mx, req]) res)))"
  by (simp add: get_from_dict_def count_miss_def Let_def split: option.split sum.split)

lemma count_miss_simps [simp]:
  "heap (count_miss c) = heap c" "root (count_miss c) = root c"
  "cache_dict (count_miss c) = cache_dict c" "full (count_miss c) = full c"
  "max_size (count_miss c) = max_size c" "Cache.key_func (count_miss c) = Cache.key_func c"
  "has_init (count_miss c) = has_init c" "func (count_miss c) = func c"
  "hits (count_miss c) = hits c" "misses (count_miss c) = misses c + 1"
  by (simp_all add: count_miss_def)

lemma evict_state_simps [simp]:
  "cache_dict (evict_state c key res) = cache_dict c" "full (evict_state c key res) = full c"
  "max_size (evict_state c key res) = max_size c"
  "Cache.key_func (evict_state c key res) = Cache.key_func c"
  "has_init (evict_state c key res) = has_init c" "func (evict_state c key res) = func c"
  "hits (evict_state c key res) = hits c" "misses (evict_state c key res) = misses c"
  "length (heap (evict_state c key res)) = length (heap c)"
  "root (evict_state c key res) = NEXT (heap c ! root c)"
  "PREV (heap (evict_state c key res) ! a) = PREV (heap c ! a)"
  "NEXT (heap (evict_state c key res) ! a) = NEXT (heap c ! a)"
  by (simp_all add: evict_state_def Let_def)

lemma insert_state_simps [simp]:
  "cache_dict (insert_state c key res) = AList.update key (length (heap c)) (cache_dict c)"
  "full (insert_state c key res) = full c"
  "max_size (insert_state c key res) = max_size c"
  "Cache.key_func (insert_state c key res) = Cache.key_func c"
  "has_init (insert_state c key res) = has_init c" "func (insert_state c key res) = func c"
  "hits (insert_state c key res) = hits c" "misses (insert_state c key res) = misses c"
  "length (heap (insert_state c key res)) = Suc (length (heap c))"
  "root (insert_state c key res) = root c"
  by (simp_all add: insert_state_def)

lemma heap_valid_count_miss: "heap_valid c \<Longrightarrow> heap_valid (count_miss c)"
  by (rule heap_validI) (simp_all add: heap_validD)

lemma heap_valid_evict_state:
  assumes v: "heap_valid c"
  shows "heap_valid (evict_state c key res)"
proof (rule heap_validI)
  note r = heap_validD(1) [OF v] and p = heap_validD(2) [OF v]
  show "ptrs_valid (heap (evict_state c key res))"
    using p by (simp add: ptrs_valid_def)
  show "root (evict_state c key res) < length (heap (evict_state c key res))"
    using ptrs_validD(2) [OF p r] by simp
  show "a < length (heap (evict_state c key res))"
    if "map_of (cache_dict (evict_state c key res)) k = Some a" for k a
    using that heap_validD(3) [OF v] by simp
qed

lemma heap_valid_cache_dict_update:
  assumes v: "heap_valid c" and a: "a < length (heap c)"
  shows "heap_valid (c\<lparr>cache_dict := AList.update key a (AList.delete k (cache_dict c))\<rparr>)"
proof (rule heap_validI)
  show "b < length (heap (c\<lparr>cache_dict := AList.update key a (AList.delete k (cache_dict c))\<rparr>))"
    if "map_of (cache_dict (c\<lparr>cache_dict := AList.update key a (AList.delete k (cache_dict c))\<rparr>)) k' = Some b"
    for k' b
    using that a heap_validD(3) [OF v, of k' b]
    by (simp add: update_conv' delete_conv' split: if_splits)
qed (simp_all add: heap_validD [OF v])

lemma heap_valid_cache_evict:
  assumes v: "heap_valid c"
  shows "heap_valid (snd (cache_evict c key res))"
proof -
  have r: "root c < length (heap (evict_state c key res))"
    using heap_validD(1) [OF v] by simp
  from heap_valid_cache_dict_update [OF heap_valid_evict_state [OF v] r]
  have "heap_valid ((evict_state c key res)\<lparr>cache_dict :=
      AList.update key (root c) (AList.delete k (cache_dict c))\<rparr>)" for k by simp
  with heap_valid_evict_state [OF v] show ?thesis
    by (simp add: cache_evict_unfold split: option.split)
qed

lemma heap_valid_insert_state:
  assumes v: "heap_valid c"
  shows "heap_valid (insert_state c key res)"
proof (rule heap_validI)
  note r = heap_validD(1) [OF v] and p = heap_validD(2) [OF v]
  have n: "PREV (heap c ! root c) < length (heap c)" using p r by (rule ptrs_validD)
  show "ptrs_valid (heap (insert_state c key res))" unfolding insert_state_def
    using r n by (simp, intro ptrs_valid_set_PREV ptrs_valid_set_NEXT ptrs_valid_append p) simp_all
  show "root (insert_state c key res) < length (heap (insert_state c key res))"
    using r by simp
  show "a < length (heap (insert_state c key res))"
    if "map_of (cache_dict (insert_state c key res)) k = Some a" for k a
    using that heap_validD(3) [OF v, of k a] by (simp add: update_conv' split: if_splits)
qed

lemma heap_valid_full_update: "heap_valid c \<Longrightarrow> heap_valid (c\<lparr>full := b\<rparr>)"
  by (rule heap_validI) (simp_all add: heap_validD)

lemma heap_valid_cache_insert:
  "heap_valid c \<Longrightarrow> heap_valid (snd (cache_insert c key res))"
  by (simp add: cache_insert_unfold heap_valid_insert_state heap_valid_full_update
      split: option.split)

lemma heap_valid_get_from_dict:
  assumes v: "heap_valid c"
  shows "heap_valid (snd (get_from_dict c obj pl y x mx req))"
  using v heap_valid_cache_hit [OF v]
    heap_valid_cache_evict [OF heap_valid_count_miss [OF v]]
    heap_valid_cache_insert [OF heap_valid_count_miss [OF v]]
    heap_valid_count_miss [OF v]
  by (simp add: get_from_dict_unfold split: option.split sum.split)

lemma heap_valid_wrapper:
  "heap_valid c \<Longrightarrow> heap_valid (snd (wrapper c obj pl y x mx req))"
  by (simp add: wrapper_def heap_valid_get_from_dict heap_valid_init_cache)

lemma heap_valid_run_op: "heap_valid c \<Longrightarrow> heap_valid (snd (run_op c op))"
  by (cases op) (simp_all add: heap_valid_wrapper heap_valid_clear_cache)

lemma heap_valid_run_ops: "heap_valid c \<Longrightarrow> heap_valid (snd (run_ops c ops))"
proof (induction ops arbitrary: c)
  case Nil
  then show ?case by simp
next
  case (Cons op ops)
  from Cons.IH [OF heap_valid_run_op [OF Cons.prems, of op]]
  show ?case by (simp add: split_beta Let_def)
qed

section \<open>A lookup leaves its key in the dictionary\<close>

lemma insert_state_heap:
  "RESULT (heap (insert_state c key res) ! length (heap c)) = Some res"
  "KEY (heap (insert_state c key res) ! length (heap c)) = Some key"
  "a < length (heap c) \<Longrightarrow> RESULT (heap (insert_state c key res) ! a) = RESULT (heap c ! a)"
  "a < length (heap c) \<Longrightarrow> KEY (heap (insert_state c key res) ! a) = KEY (heap c ! a)"
  by (simp_all add: insert_state_def nth_append)

lemma evict_state_heap:
  assumes "heap_valid c"
  shows "RESULT (heap (evict_state c key res) ! a) =
      (if a = NEXT (heap c ! root c) then None else if a = root c then Some res
       else RESULT (heap c ! a))"
    and "KEY (heap (evict_state c key res) ! a) =
      (if a = NEXT (heap c ! root c) then None else if a = root c then Some key
       else KEY (heap c ! a))"
proof -
  note r = heap_validD(1) [OF assms]
  have n: "NEXT (heap c ! root c) < length (heap c)"
    using heap_validD(2) [OF assms] r by (rule ptrs_validD)
  show "RESULT (heap (evict_state c key res) ! a) =
      (if a = NEXT (heap c ! root c) then None else if a = root c then Some res
       else RESULT (heap c ! a))"
    using r n by (simp add: evict_state_def Let_def set_RESULT_same)
  show "KEY (heap (evict_state c key res) ! a) =
      (if a = NEXT (heap c ! root c) then None else if a = root c then Some key
       else KEY (heap c ! a))"
    using r n by (simp add: evict_state_def Let_def set_KEY_same)
qed

lemma evict_oldkey_eq:
  assumes "heap_valid c"
  shows "evict_oldkey c key =
    (if NEXT (heap c ! root c) = root c then Some key else KEY (heap c ! NEXT (heap c ! root c)))"
  using heap_validD(1) [OF assms] by (simp add: evict_oldkey_def Let_def set_KEY_same)

lemma get_from_dict_stores:
  assumes v: "heap_valid c" and kf: "Cache.key_func c = Some kf"
    and run: "get_from_dict c obj pl y x mx req = (Inr r, c')"
  shows "Cache.key_func c' = Some kf \<and> has_init c' = has_init c
    \<and> (\<exists>a. map_of (cache_dict c') (kf (PList pl), kf y, [mx, req]) = Some a
          \<and> RESULT (heap c' ! a) = r)"
proof (cases "map_of (cache_dict c) (kf (PList pl), kf y, [mx, req])")
  case (Some lnk)
  with run kf have "cache_hit c lnk = (Inr r, c')" by (simp add: get_from_dict_unfold)
  from cache_hit_facts [OF this] Some kf show ?thesis by simp
next
  case None
  note miss = None
  let ?key = "(kf (PList pl), kf y, [mx, req])"
  from run kf miss obtain res where f: "func c obj pl y x mx req = Inr res"
    by (cases "func c obj pl y x mx req") (simp_all add: get_from_dict_unfold)
  have vm: "heap_valid (count_miss c)" using v by (rule heap_valid_count_miss)
  show ?thesis
  proof (cases "full c")
    case True
    with run kf miss f have ev: "cache_evict (count_miss c) ?key res = (Inr r, c')"
      by (simp add: get_from_dict_unfold)
    then obtain k l where ok: "evict_oldkey (count_miss c) ?key = Some k"
      and l: "map_of (cache_dict c) k = Some l"
      and r: "r = Some res"
      and c': "c' = (evict_state (count_miss c) ?key res)\<lparr>cache_dict :=
                AList.update ?key (root c) (AList.delete k (cache_dict c))\<rparr>"
      by (auto simp: cache_evict_unfold split: option.splits)
    have "NEXT (heap c ! root c) \<noteq> root c"
    proof
      assume "NEXT (heap c ! root c) = root c"
      with ok have "k = ?key" by (simp add: evict_oldkey_eq [OF vm])
      with l miss show False by simp
    qed
    then have "RESULT (heap c' ! root c) = Some res"
      by (simp add: c' evict_state_heap [OF vm])
    moreover have "map_of (cache_dict c') ?key = Some (root c)"
      by (simp add: c' update_conv')
    ultimately show ?thesis using kf r by (simp add: c')
  next
    case False
    with run kf miss f have ins: "cache_insert (count_miss c) ?key res = (Inr r, c')"
      by (simp add: get_from_dict_unfold)
    then have r: "r = Some res"
      and c': "c' = insert_state (count_miss c) ?key res
          \<or> (\<exists>b. c' = (insert_state (count_miss c) ?key res)\<lparr>full := b\<rparr>)"
      by (auto simp: cache_insert_unfold split: option.splits)
    from c' have "Cache.key_func c' = Some kf \<and> has_init c' = has_init c
      \<and> map_of (cache_dict c') ?key = Some (length (heap c))
      \<and> RESULT (heap c' ! length (heap c)) = Some res"
      using kf insert_state_heap(1) [of "count_miss c" ?key res]
      by (auto simp: update_conv')
    with r show ?thesis by blast
  qed
qed

lemma has_init_init_cache: "has_init (init_cache c obj)"
  by (simp add: init_cache_def)

lemma init_cache_idem: "has_init c \<Longrightarrow> init_cache c obj = c"
  by (simp add: init_cache_def)

lemma wrapper_hit_after:
  assumes v: "heap_valid c" and u1: "use_cache obj1" and u2: "use_cache obj2"
    and first: "wrapper c obj1 pl y x mx req = (Inr r, c')"
  shows "\<exists>c''. wrapper c' obj2 pl y x' mx req = (Inr r, c'')
    \<and> hits c'' = hits c' + 1 \<and> misses c'' = misses c' \<and> cache_dict c'' = cache_dict c'"
proof -
  let ?c1 = "init_cache c obj1"
  have v1: "heap_valid ?c1" using v by (rule heap_valid_init_cache)
  from first u1 have g: "get_from_dict ?c1 obj1 pl y x mx req = (Inr r, c')"
    by (simp add: wrapper_def)
  then obtain kf where kf: "Cache.key_func ?c1 = Some kf"
    by (cases "Cache.key_func ?c1") (simp_all add: get_from_dict_unfold)
  from get_from_dict_stores [OF v1 kf g] has_init_init_cache [of c obj1]
  obtain a where kf': "Cache.key_func c' = Some kf" and hi: "has_init c'"
    and m: "map_of (cache_dict c') (kf (PList pl), kf y, [mx, req]) = Some a"
    and res: "RESULT (heap c' ! a) = r" by auto
  obtain r' c'' where h: "cache_hit c' a = (r', c'')" by (cases "cache_hit c' a")
  from u2 hi kf' m h have "wrapper c' obj2 pl y x' mx req = (r', c'')"
    by (simp add: wrapper_def init_cache_idem get_from_dict_unfold)
  with cache_hit_facts [OF h] res show ?thesis by simp
qed

section \<open>The circular list\<close>

lemma linked_append:
  "linked h (xs @ ys) = (linked h xs \<and> linked h ys
     \<and> (xs \<noteq> [] \<longrightarrow> ys \<noteq> [] \<longrightarrow> NEXT (h ! last xs) = hd ys \<and> PREV (h ! hd ys) = last xs))"
proof (induction xs)
  case Nil
  show ?case by simp
next
  case (Cons a xs)
  show ?case
  proof (cases xs)
    case Nil
    then show ?thesis by (cases ys) auto
  next
    case (Cons b cs)
    with Cons.IH show ?thesis by auto
  qed
qed

lemma linked_frame:
  "(\<forall>a\<in>set (butlast xs). NEXT (h' ! a) = NEXT (h ! a)) \<Longrightarrow>
   (\<forall>a\<in>set (tl xs). PREV (h' ! a) = PREV (h ! a)) \<Longrightarrow> linked h' xs = linked h xs"
proof (induction xs)
  case Nil
  show ?case by simp
next
  case (Cons a xs)
  show ?case
  proof (cases xs)
    case Nil
    then show ?thesis by simp
  next
    case (Cons b cs)
    with Cons.IH Cons.prems show ?thesis by simp
  qed
qed

lemma linked_ends:
  assumes "linked h (r # ls @ [r])"
  shows "PREV (h ! r) = last (r # ls)" and "NEXT (h ! r) = hd (ls @ [r])"
proof -
  from assms have "linked h ((r # ls) @ [r])" by simp
  then show "PREV (h ! r) = last (r # ls)" unfolding linked_append by simp
  from assms show "NEXT (h ! r) = hd (ls @ [r])" by (cases ls) simp_all
qed

lemma linked_rotate:
  assumes "linked h (r # (l # rest) @ [r])"
  shows "linked h (l # (rest @ [r]) @ [l])"
proof -
  from assms have "NEXT (h ! r) = l" "PREV (h ! l) = r" "linked h (l # rest @ [r])" by simp_all
  then show ?thesis using linked_append [of h "l # rest @ [r]" "[l]"] by simp
qed

lemma last_notin_butlast: "distinct xs \<Longrightarrow> xs \<noteq> [] \<Longrightarrow> last xs \<notin> set (butlast xs)"
  by (induction xs) auto

lemma linked_push:
  assumes lk: "linked h (r # ls @ [r])" and d: "distinct (r # ls)" and n: "n \<notin> set (r # ls)"
    and nn: "NEXT (h' ! n) = r" and pn: "PREV (h' ! n) = last (r # ls)"
    and nl: "NEXT (h' ! last (r # ls)) = n" and pr: "PREV (h' ! r) = n"
    and fn: "\<forall>a\<in>set (r # ls). a \<noteq> last (r # ls) \<longrightarrow> NEXT (h' ! a) = NEXT (h ! a)"
    and fp: "\<forall>a\<in>set ls. PREV (h' ! a) = PREV (h ! a)"
  shows "linked h' (r # (ls @ [n]) @ [r])"
proof -
  from lk have "linked h ((r # ls) @ [r])" by simp
  then have l0: "linked h (r # ls)" unfolding linked_append by simp
  have "linked h' (r # ls) = linked h (r # ls)"
  proof (rule linked_frame)
    have "last (r # ls) \<notin> set (butlast (r # ls))"
      using d by (intro last_notin_butlast) simp_all
    then show "\<forall>a\<in>set (butlast (r # ls)). NEXT (h' ! a) = NEXT (h ! a)"
      using fn by (metis in_set_butlastD)
    show "\<forall>a\<in>set (tl (r # ls)). PREV (h' ! a) = PREV (h ! a)" using fp by simp
  qed
  with l0 have l1: "linked h' (r # ls)" by simp
  have "linked h' ((r # ls) @ [n, r])"
    by (subst linked_append) (use l1 nn pn nl pr in simp)
  then show ?thesis by simp
qed

lemma linked_at:
  assumes lk: "linked h (r # (xs @ a # ys) @ [r])"
  shows "PREV (h ! a) = last (r # xs)" and "NEXT (h ! a) = hd (ys @ [r])"
    and "linked h (r # xs)" and "linked h (ys @ [r])"
proof -
  from lk have "linked h ((r # xs) @ (a # ys @ [r]))" by simp
  then have A: "linked h (r # xs)" and B: "linked h (a # ys @ [r])"
    and P: "PREV (h ! a) = last (r # xs)"
    unfolding linked_append by simp_all
  show "PREV (h ! a) = last (r # xs)" by (rule P)
  show "linked h (r # xs)" by (rule A)
  from B show "NEXT (h ! a) = hd (ys @ [r])" by (cases ys) simp_all
  from B show "linked h (ys @ [r])" by (cases ys) simp_all
qed

lemma linked_unlink:
  assumes lk: "linked h (r # (xs @ a # ys) @ [r])" and d: "distinct (r # xs @ a # ys)"
    and nl: "NEXT (h' ! last (r # xs)) = hd (ys @ [r])"
    and pn: "PREV (h' ! hd (ys @ [r])) = last (r # xs)"
    and fn: "\<forall>b\<in>set (r # xs @ ys). b \<noteq> last (r # xs) \<longrightarrow> NEXT (h' ! b) = NEXT (h ! b)"
    and fp: "\<forall>b\<in>set (xs @ ys @ [r]). b \<noteq> hd (ys @ [r]) \<longrightarrow> PREV (h' ! b) = PREV (h ! b)"
  shows "linked h' (r # (xs @ ys) @ [r])"
proof -
  note at = linked_at [OF lk]
  have lastin: "last (r # xs) \<in> set (r # xs)" by (rule last_in_set) simp
  have hdin: "hd (ys @ [r]) \<in> set (ys @ [r])" by (rule hd_in_set) simp
  have "linked h' (r # xs) = linked h (r # xs)"
  proof (rule linked_frame)
    have "last (r # xs) \<notin> set (butlast (r # xs))"
      using d by (intro last_notin_butlast) simp_all
    then show "\<forall>b\<in>set (butlast (r # xs)). NEXT (h' ! b) = NEXT (h ! b)"
      using fn by (metis in_set_butlastD Un_iff set_append append_Cons)
    have "hd (ys @ [r]) \<notin> set xs" using d hdin by auto
    show "\<forall>b\<in>set (tl (r # xs)). PREV (h' ! b) = PREV (h ! b)"
    proof
      fix b assume "b \<in> set (tl (r # xs))"
      then have b: "b \<in> set xs" by simp
      with \<open>hd (ys @ [r]) \<notin> set xs\<close> have "b \<noteq> hd (ys @ [r])" by blast
      moreover from b have "b \<in> set (xs @ ys @ [r])" by simp
      ultimately show "PREV (h' ! b) = PREV (h ! b)" using fp by blast
    qed
  qed
  with at(3) have A: "linked h' (r # xs)" by simp
  have "linked h' (ys @ [r]) = linked h (ys @ [r])"
  proof (rule linked_frame)
    have "last (r # xs) \<notin> set ys" using d lastin by auto
    show "\<forall>b\<in>set (butlast (ys @ [r])). NEXT (h' ! b) = NEXT (h ! b)"
    proof
      fix b assume "b \<in> set (butlast (ys @ [r]))"
      then have b: "b \<in> set ys" by simp
      with \<open>last (r # xs) \<notin> set ys\<close> have "b \<noteq> last (r # xs)" by blast
      moreover from b have "b \<in> set (r # xs @ ys)" by simp
      ultimately show "NEXT (h' ! b) = NEXT (h ! b)" using fn by blast
    qed
    have nt: "hd (ys @ [r]) \<notin> set (tl (ys @ [r]))" using d by (cases ys) auto
    have sub: "set (tl (ys @ [r])) \<subseteq> set (xs @ ys @ [r])" by (cases ys) auto
    show "\<forall>b\<in>set (tl (ys @ [r])). PREV (h' ! b) = PREV (h ! b)"
    proof
      fix b assume b: "b \<in> set (tl (ys @ [r]))"
      with nt have neq: "b \<noteq> hd (ys @ [r])" by metis
      from sub b have bin: "b \<in> set (xs @ ys @ [r])" by (rule subsetD)
      from fp bin have "b \<noteq> hd (ys @ [r]) \<longrightarrow> PREV (h' ! b) = PREV (h ! b)" by (rule bspec)
      then show "PREV (h' ! b) = PREV (h ! b)" using neq by (rule mp)
    qed
  qed
  with at(4) have B: "linked h' (ys @ [r])" by simp
  have "linked h' ((r # xs) @ (ys @ [r]))"
    by (subst linked_append) (use A B nl pn in simp)
  then show ?thesis by simp
qed

lemma cache_invD:
  assumes "cache_inv P c ls"
  shows "heap_valid c" and "linked (heap c) (root c # ls @ [root c])"
    and "distinct (root c # ls)"
    and "a \<in> set ls \<Longrightarrow> a < length (heap c)"
    and "a \<in> set ls \<Longrightarrow> \<exists>k. KEY (heap c ! a) = Some k \<and> map_of (cache_dict c) k = Some a"
    and "map_of (cache_dict c) k = Some a \<Longrightarrow> a \<in> set ls"
    and "map_of (cache_dict c) k = Some a \<Longrightarrow> KEY (heap c ! a) = Some k"
    and "map_of (cache_dict c) k = Some a \<Longrightarrow> \<exists>v. RESULT (heap c ! a) = Some v \<and> P k v"
    and "full c \<Longrightarrow> ls \<noteq> []"
  using assms unfolding cache_inv_def by blast+

lemma cache_invI:
  assumes "heap_valid c" and "linked (heap c) (root c # ls @ [root c])"
    and "distinct (root c # ls)"
    and "\<And>a. a \<in> set ls \<Longrightarrow> a < length (heap c)"
    and "\<And>a. a \<in> set ls \<Longrightarrow> \<exists>k. KEY (heap c ! a) = Some k \<and> map_of (cache_dict c) k = Some a"
    and "\<And>k a. map_of (cache_dict c) k = Some a \<Longrightarrow> a \<in> set ls"
    and "\<And>k a. map_of (cache_dict c) k = Some a \<Longrightarrow> KEY (heap c ! a) = Some k"
    and "\<And>k a. map_of (cache_dict c) k = Some a \<Longrightarrow> \<exists>v. RESULT (heap c ! a) = Some v \<and> P k v"
    and "full c \<Longrightarrow> ls \<noteq> []"
  shows "cache_inv P c ls"
  unfolding cache_inv_def using assms by blast

lemma cache_inv_Cache_init: "cache_inv P (Cache_init f) []"
  by (rule cache_invI) (simp_all add: heap_valid_Cache_init, simp_all add: Cache_init_def)

lemma cache_inv_init_cache:
  assumes "cache_inv P c ls"
  shows "\<exists>ls'. cache_inv P (init_cache c obj) ls'"
proof (cases "has_init c")
  case True
  with assms show ?thesis by (auto simp: init_cache_def)
next
  case False
  have "cache_inv P (init_cache c obj) []"
    by (rule cache_invI)
      (simp_all add: heap_valid_init_cache cache_invD(1) [OF assms],
       simp_all add: init_cache_def False)
  then show ?thesis ..
qed

section \<open>The invariant under insertion, eviction and hits\<close>

lemma insert_state_ptrs:
  assumes v: "heap_valid c" and a: "a \<le> length (heap c)"
  shows "NEXT (heap (insert_state c key res) ! a) =
      (if a = PREV (heap c ! root c) then length (heap c)
       else if a = length (heap c) then root c else NEXT (heap c ! a))"
    and "PREV (heap (insert_state c key res) ! a) =
      (if a = root c then length (heap c)
       else if a = length (heap c) then PREV (heap c ! root c) else PREV (heap c ! a))"
proof -
  note r = heap_validD(1) [OF v]
  have l: "PREV (heap c ! root c) < length (heap c)"
    using heap_validD(2) [OF v] r by (rule ptrs_validD)
  show "NEXT (heap (insert_state c key res) ! a) =
      (if a = PREV (heap c ! root c) then length (heap c)
       else if a = length (heap c) then root c else NEXT (heap c ! a))"
    using r l a by (simp add: insert_state_def set_NEXT_same nth_append)
  show "PREV (heap (insert_state c key res) ! a) =
      (if a = root c then length (heap c)
       else if a = length (heap c) then PREV (heap c ! root c) else PREV (heap c ! a))"
    using r l a by (simp add: insert_state_def set_PREV_same nth_append)
qed

lemma cache_inv_insert_state:
  assumes inv: "cache_inv P c ls" and miss: "map_of (cache_dict c) key = None"
    and P: "P key res"
  shows "cache_inv P (insert_state c key res) (ls @ [length (heap c)])"
proof (rule cache_invI)
  note v = cache_invD(1) [OF inv] and lk = cache_invD(2) [OF inv] and d = cache_invD(3) [OF inv]
  note r = heap_validD(1) [OF v]
  let ?n = "length (heap c)" and ?c' = "insert_state c key res"
  have lt: "\<And>a. a \<in> set (root c # ls) \<Longrightarrow> a < ?n" using r cache_invD(4) [OF inv] by auto
  have last: "PREV (heap c ! root c) = last (root c # ls)" using linked_ends(1) [OF lk] .
  have lastin: "last (root c # ls) \<in> set (root c # ls)" by (rule last_in_set) simp
  show "heap_valid ?c'" using v by (rule heap_valid_insert_state)
  show "linked (heap ?c') (root ?c' # (ls @ [?n]) @ [root ?c'])"
  proof (simp only: insert_state_simps, rule linked_push [OF lk d])
    show "?n \<notin> set (root c # ls)" using lt by blast
    show "NEXT (heap ?c' ! ?n) = root c"
      using lt [OF lastin] by (simp add: insert_state_ptrs [OF v] last)
    show "PREV (heap ?c' ! ?n) = last (root c # ls)"
      using r by (simp add: insert_state_ptrs [OF v] last)
    show "NEXT (heap ?c' ! last (root c # ls)) = ?n"
      using lt [OF lastin] by (simp add: insert_state_ptrs [OF v] last)
    show "PREV (heap ?c' ! root c) = ?n"
      using r by (simp add: insert_state_ptrs [OF v])
    show "\<forall>a\<in>set (root c # ls). a \<noteq> last (root c # ls) \<longrightarrow>
        NEXT (heap ?c' ! a) = NEXT (heap c ! a)"
    proof (intro ballI impI)
      fix a assume "a \<in> set (root c # ls)" "a \<noteq> last (root c # ls)"
      then show "NEXT (heap ?c' ! a) = NEXT (heap c ! a)"
        using lt [of a] by (simp add: insert_state_ptrs [OF v] last)
    qed
    show "\<forall>a\<in>set ls. PREV (heap ?c' ! a) = PREV (heap c ! a)"
    proof
      fix a assume a: "a \<in> set ls"
      then have "a \<noteq> root c" using d by auto
      then show "PREV (heap ?c' ! a) = PREV (heap c ! a)"
        using lt [of a] a by (simp add: insert_state_ptrs [OF v])
    qed
  qed
  have "?n \<notin> set (root c # ls)" using lt by blast
  then show "distinct (root ?c' # ls @ [?n])" using d by simp
  show "a < length (heap ?c')" if "a \<in> set (ls @ [?n])" for a
    using that lt [of a] by auto
  show "\<exists>k. KEY (heap ?c' ! a) = Some k \<and> map_of (cache_dict ?c') k = Some a"
    if "a \<in> set (ls @ [?n])" for a
  proof (cases "a = ?n")
    case True
    then show ?thesis by (simp add: insert_state_heap update_conv')
  next
    case False
    with that have a: "a \<in> set ls" by simp
    from cache_invD(5) [OF inv a] obtain k where
      k: "KEY (heap c ! a) = Some k" "map_of (cache_dict c) k = Some a" by blast
    with miss have "k \<noteq> key" by auto
    with k lt [of a] a show ?thesis by (simp add: insert_state_heap update_conv')
  qed
  show "a \<in> set (ls @ [?n])" if "map_of (cache_dict ?c') k = Some a" for k a
    using that cache_invD(6) [OF inv, of k a]
    by (simp add: update_conv' split: if_splits)
  show "KEY (heap ?c' ! a) = Some k" if "map_of (cache_dict ?c') k = Some a" for k a
  proof (cases "k = key")
    case True
    with that have an: "a = ?n" by (simp add: update_conv')
    show ?thesis unfolding an True by (rule insert_state_heap(2))
  next
    case False
    with that have m: "map_of (cache_dict c) k = Some a" by (simp add: update_conv')
    from cache_invD(6) [OF inv m] have "a < ?n" using lt by simp
    with cache_invD(7) [OF inv m] show ?thesis by (simp add: insert_state_heap)
  qed
  show "\<exists>v. RESULT (heap ?c' ! a) = Some v \<and> P k v"
    if "map_of (cache_dict ?c') k = Some a" for k a
  proof (cases "k = key")
    case True
    with that have an: "a = ?n" by (simp add: update_conv')
    show ?thesis unfolding an True using P insert_state_heap(1) [of c key res] by simp
  next
    case False
    with that have m: "map_of (cache_dict c) k = Some a" by (simp add: update_conv')
    from cache_invD(6) [OF inv m] have "a < ?n" using lt by simp
    with cache_invD(8) [OF inv m] show ?thesis by (simp add: insert_state_heap)
  qed
  show "ls @ [?n] \<noteq> []" by simp
qed

lemma cache_inv_full_update:
  "cache_inv P c ls \<Longrightarrow> ls \<noteq> [] \<Longrightarrow> cache_inv P (c\<lparr>full := b\<rparr>) ls"
  unfolding cache_inv_def by (simp add: heap_valid_full_update)

lemma cache_inv_cache_insert:
  assumes inv: "cache_inv P c ls" and miss: "map_of (cache_dict c) key = None"
    and P: "P key res"
  shows "fst (cache_insert c key res) = Inr (Some res)
    \<and> cache_inv P (snd (cache_insert c key res)) (ls @ [length (heap c)])"
  using cache_inv_insert_state [OF assms]
    cache_inv_full_update [OF cache_inv_insert_state [OF assms]]
  by (simp add: cache_insert_unfold split: option.split)

lemma cache_inv_cache_evict:
  assumes inv: "cache_inv P c ls" and miss: "map_of (cache_dict c) key = None"
    and P: "P key res" and f: "full c"
  shows "fst (cache_evict c key res) = Inr (Some res)
    \<and> cache_inv P (snd (cache_evict c key res)) (tl ls @ [root c])"
proof -
  note v = cache_invD(1) [OF inv] and lk = cache_invD(2) [OF inv] and d = cache_invD(3) [OF inv]
  note r = heap_validD(1) [OF v]
  from cache_invD(9) [OF inv f] obtain l rest where ls: "ls = l # rest" by (cases ls) auto
  have nx: "NEXT (heap c ! root c) = l" using linked_ends(2) [OF lk] by (simp add: ls)
  have lr: "l \<noteq> root c" using d by (simp add: ls)
  have lin: "l \<in> set ls" by (simp add: ls)
  from cache_invD(5) [OF inv lin] obtain k1 where
    k1: "KEY (heap c ! l) = Some k1" "map_of (cache_dict c) k1 = Some l" by blast
  have ok: "evict_oldkey c key = Some k1" using lr k1 by (simp add: evict_oldkey_eq [OF v] nx)
  define c' where "c' = (evict_state c key res)\<lparr>cache_dict :=
      AList.update key (root c) (AList.delete k1 (cache_dict c))\<rparr>"
  have ev: "cache_evict c key res = (Inr (Some res), c')"
    using ok k1 by (simp add: cache_evict_unfold c'_def)
  have hp: "heap c' = heap (evict_state c key res)" and rt: "root c' = l"
    and fl: "full c' = full c"
    and dc: "map_of (cache_dict c') = ((map_of (cache_dict c))(k1 := None))(key \<mapsto> root c)"
    by (simp_all add: c'_def nx update_conv' delete_conv')
  have key: "KEY (heap c' ! a) = (if a = l then None else if a = root c then Some key
       else KEY (heap c ! a))"
    and res: "RESULT (heap c' ! a) = (if a = l then None else if a = root c then Some res
       else RESULT (heap c ! a))" for a
    by (simp_all add: hp evict_state_heap [OF v] nx)
  have k1key: "k1 \<noteq> key" using k1 miss by auto
  have old: "map_of (cache_dict c) k = Some a \<and> k \<noteq> k1 \<and> a \<in> set rest"
    if "map_of (cache_dict c') k = Some a" "k \<noteq> key" for k a
  proof -
    from that have m: "map_of (cache_dict c) k = Some a" and kk: "k \<noteq> k1"
      by (simp_all add: dc split: if_splits)
    from cache_invD(6) [OF inv m] cache_invD(7) [OF inv m] k1 kk
    have "a \<in> set rest" by (auto simp: ls)
    with m kk show ?thesis by simp
  qed
  have "cache_inv P c' (rest @ [root c])"
  proof (rule cache_invI)
    show "heap_valid c'" using heap_valid_cache_evict [OF v, of key res] by (simp add: ev)
    have "linked (heap c') (l # (rest @ [root c]) @ [l]) = linked (heap c) (l # (rest @ [root c]) @ [l])"
      by (rule linked_frame) (simp_all add: hp)
    moreover have "linked (heap c) (l # (rest @ [root c]) @ [l])"
      using lk unfolding ls by (rule linked_rotate)
    ultimately show "linked (heap c') (root c' # (rest @ [root c]) @ [root c'])"
      by (simp add: rt)
    show "distinct (root c' # rest @ [root c])" using d by (auto simp: rt ls)
    show "a < length (heap c')" if "a \<in> set (rest @ [root c])" for a
      using that r cache_invD(4) [OF inv, of a] by (auto simp: hp ls)
    show "\<exists>k. KEY (heap c' ! a) = Some k \<and> map_of (cache_dict c') k = Some a"
      if "a \<in> set (rest @ [root c])" for a
    proof (cases "a = root c")
      case True
      then show ?thesis using lr by (simp add: key dc)
    next
      case False
      with that have a: "a \<in> set rest" by simp
      then have al: "a \<noteq> l" using d by (auto simp: ls)
      from a have "a \<in> set ls" by (simp add: ls)
      from cache_invD(5) [OF inv this] obtain k where
        k: "KEY (heap c ! a) = Some k" "map_of (cache_dict c) k = Some a" by blast
      from k k1 al have "k \<noteq> k1" by auto
      moreover from k miss have "k \<noteq> key" by auto
      ultimately show ?thesis using k al False by (simp add: key dc)
    qed
    show "a \<in> set (rest @ [root c])" if "map_of (cache_dict c') k = Some a" for k a
    proof (cases "k = key")
      case True
      with that show ?thesis by (simp add: dc)
    next
      case False
      from old [OF that False] show ?thesis by simp
    qed
    show "KEY (heap c' ! a) = Some k" if "map_of (cache_dict c') k = Some a" for k a
    proof (cases "k = key")
      case True
      with that lr show ?thesis by (simp add: dc key)
    next
      case False
      from old [OF that False] have m: "map_of (cache_dict c) k = Some a" and a: "a \<in> set rest"
        by simp_all
      from a d have "a \<noteq> l" "a \<noteq> root c" by (auto simp: ls)
      with cache_invD(7) [OF inv m] show ?thesis by (simp add: key)
    qed
    show "\<exists>v. RESULT (heap c' ! a) = Some v \<and> P k v"
      if "map_of (cache_dict c') k = Some a" for k a
    proof (cases "k = key")
      case True
      with that lr P show ?thesis by (simp add: dc res)
    next
      case False
      from old [OF that False] have m: "map_of (cache_dict c) k = Some a" and a: "a \<in> set rest"
        by simp_all
      from a d have "a \<noteq> l" "a \<noteq> root c" by (auto simp: ls)
      with cache_invD(8) [OF inv m] show ?thesis by (simp add: res)
    qed
    show "rest @ [root c] \<noteq> []" by simp
  qed
  then show ?thesis by (simp add: ev ls)
qed

lemma cache_inv_cache_hit:
  assumes inv: "cache_inv P c ls" and m: "map_of (cache_dict c) key = Some lnk"
  shows "\<exists>ls'. cache_inv P (snd (cache_hit c lnk)) ls'"
proof -
  note v = cache_invD(1) [OF inv] and lk = cache_invD(2) [OF inv] and d = cache_invD(3) [OF inv]
  note r = heap_validD(1) [OF v] and pv = heap_validD(2) [OF v]
  let ?h = "heap c" and ?r = "root c"
  from cache_invD(6) [OF inv m] obtain xs ys where ls: "ls = xs @ lnk # ys"
    by (auto dest: split_list)
  have lt: "\<And>a. a \<in> set (?r # ls) \<Longrightarrow> a < length ?h" using r cache_invD(4) [OF inv] by auto
  have l: "lnk < length ?h" using lt by (simp add: ls)
  note at = linked_at [OF lk [unfolded ls]]
  define p where "p = last (?r # xs)"
  define nx where "nx = hd (ys @ [?r])"
  have pin: "p \<in> set (?r # xs)" unfolding p_def by (rule last_in_set) simp
  have nin: "nx \<in> set (ys @ [?r])" unfolding nx_def by (rule hd_in_set) simp
  have pl: "p < length ?h" using lt [of p] pin by (auto simp: ls)
  have nl: "nx < length ?h" using lt [of nx] nin by (auto simp: ls)
  have plnk: "p \<noteq> lnk" using pin d by (auto simp: ls)
  have nlnk: "nx \<noteq> lnk" using nin d by (auto simp: ls)
  have rlnk: "?r \<noteq> lnk" using d by (auto simp: ls)
  define h2 where "h2 = set_PREV (set_NEXT ?h p nx) nx p"
  have len2: "length h2 = length ?h" by (simp add: h2_def)
  have n2: "NEXT (h2 ! a) = (if a = p then nx else NEXT (?h ! a))"
    and p2: "PREV (h2 ! a) = (if a = nx then p else PREV (?h ! a))" for a
    using pl nl by (simp_all add: h2_def set_NEXT_same set_PREV_same)
  have lk2: "linked h2 (?r # (xs @ ys) @ [?r])"
  proof (rule linked_unlink [OF lk [unfolded ls] d [unfolded ls], of h2, folded p_def nx_def])
    show "NEXT (h2 ! p) = nx" by (simp add: n2)
    show "PREV (h2 ! nx) = p" by (simp add: p2)
    show "\<forall>b\<in>set (?r # xs @ ys). b \<noteq> p \<longrightarrow> NEXT (h2 ! b) = NEXT (?h ! b)"
      by (simp add: n2)
    show "\<forall>b\<in>set (xs @ ys @ [?r]). b \<noteq> nx \<longrightarrow> PREV (h2 ! b) = PREV (?h ! b)"
      by (simp add: p2)
  qed
  have d2: "distinct (?r # xs @ ys)" using d by (simp add: ls)
  define last2 where "last2 = last (?r # xs @ ys)"
  have l2: "PREV (h2 ! ?r) = last2" using linked_ends(1) [OF lk2] by (simp add: last2_def)
  have l2in: "last2 \<in> set (?r # xs @ ys)" unfolding last2_def by (rule last_in_set) simp
  have l2l: "last2 < length ?h" using lt [of last2] l2in by (auto simp: ls)
  have l2lnk: "last2 \<noteq> lnk" using l2in d by (auto simp: ls)
  define h6 where "h6 = set_NEXT (set_PREV (set_PREV (set_NEXT h2 last2 lnk) ?r lnk) lnk last2) lnk ?r"
  have hp: "heap (snd (cache_hit c lnk)) = h6"
    by (simp add: cache_hit_def Let_def h6_def h2_def l2 [symmetric] at(1,2) p_def nx_def)
  have n6: "NEXT (h6 ! a) = (if a = lnk then ?r else if a = last2 then lnk else NEXT (h2 ! a))"
    and p6: "PREV (h6 ! a) = (if a = lnk then last2 else if a = ?r then lnk else PREV (h2 ! a))" for a
    using l r l2l len2 by (simp_all add: h6_def set_NEXT_same set_PREV_same)
  have lk6: "linked h6 (?r # ((xs @ ys) @ [lnk]) @ [?r])"
  proof (rule linked_push [OF lk2 d2, of lnk h6, folded last2_def])
    show "lnk \<notin> set (?r # xs @ ys)" using d by (auto simp: ls)
    show "NEXT (h6 ! lnk) = ?r" by (simp add: n6)
    show "PREV (h6 ! lnk) = last2" by (simp add: p6)
    show "NEXT (h6 ! last2) = lnk" using l2lnk by (simp add: n6)
    show "PREV (h6 ! ?r) = lnk" using rlnk by (simp add: p6)
    show "\<forall>a\<in>set (?r # xs @ ys). a \<noteq> last2 \<longrightarrow> NEXT (h6 ! a) = NEXT (h2 ! a)"
    proof (intro ballI impI)
      fix a assume a: "a \<in> set (?r # xs @ ys)" "a \<noteq> last2"
      then have "a \<noteq> lnk" using d by (auto simp: ls)
      with a show "NEXT (h6 ! a) = NEXT (h2 ! a)" by (simp add: n6)
    qed
    show "\<forall>a\<in>set (xs @ ys). PREV (h6 ! a) = PREV (h2 ! a)"
    proof
      fix a assume a: "a \<in> set (xs @ ys)"
      then have "a \<noteq> lnk" "a \<noteq> ?r" using d by (auto simp: ls)
      then show "PREV (h6 ! a) = PREV (h2 ! a)" by (simp add: p6)
    qed
  qed
  obtain res c' where hit: "cache_hit c lnk = (res, c')" by (cases "cache_hit c lnk")
  note facts = cache_hit_facts [OF hit]
  have hp': "heap c' = h6" using hp by (simp add: hit)
  have "cache_inv P c' (xs @ ys @ [lnk])"
  proof (rule cache_invI)
    show "heap_valid c'" using heap_valid_cache_hit [OF v m] by (simp add: hit)
    show "linked (heap c') (root c' # (xs @ ys @ [lnk]) @ [root c'])"
      using lk6 by (simp add: hp' facts)
    show "distinct (root c' # xs @ ys @ [lnk])" using d by (auto simp: facts ls)
    show "a < length (heap c')" if "a \<in> set (xs @ ys @ [lnk])" for a
      using that lt [of a] by (auto simp: facts ls)
    show "\<exists>k. KEY (heap c' ! a) = Some k \<and> map_of (cache_dict c') k = Some a"
      if "a \<in> set (xs @ ys @ [lnk])" for a
    proof -
      from that have "a \<in> set ls" by (auto simp: ls)
      from cache_invD(5) [OF inv this] show ?thesis by (simp add: facts)
    qed
    show "a \<in> set (xs @ ys @ [lnk])" if "map_of (cache_dict c') k = Some a" for k a
      using that cache_invD(6) [OF inv, of k a] by (auto simp: facts ls)
    show "KEY (heap c' ! a) = Some k" if "map_of (cache_dict c') k = Some a" for k a
      using that cache_invD(7) [OF inv, of k a] by (simp add: facts)
    show "\<exists>v. RESULT (heap c' ! a) = Some v \<and> P k v"
      if "map_of (cache_dict c') k = Some a" for k a
      using that cache_invD(8) [OF inv, of k a] by (simp add: facts)
    show "xs @ ys @ [lnk] \<noteq> []" by simp
  qed
  then show ?thesis by (auto simp: hit)
qed

lemma cache_evict_config:
  "func (snd (cache_evict c key res)) = func c"
  "Cache.key_func (snd (cache_evict c key res)) = Cache.key_func c"
  "has_init (snd (cache_evict c key res)) = has_init c"
  "max_size (snd (cache_evict c key res)) = max_size c"
  by (simp_all add: cache_evict_unfold split: option.split)

lemma cache_insert_config:
  "func (snd (cache_insert c key res)) = func c"
  "Cache.key_func (snd (cache_insert c key res)) = Cache.key_func c"
  "has_init (snd (cache_insert c key res)) = has_init c"
  "max_size (snd (cache_insert c key res)) = max_size c"
  by (simp_all add: cache_insert_unfold split: option.split)

lemma cache_hit_config:
  "func (snd (cache_hit c lnk)) = func c"
  "Cache.key_func (snd (cache_hit c lnk)) = Cache.key_func c"
  "has_init (snd (cache_hit c lnk)) = has_init c"
  "max_size (snd (cache_hit c lnk)) = max_size c"
  by (simp_all add: cache_hit_def Let_def)

lemma get_from_dict_config:
  "func (snd (get_from_dict c obj pl y x mx req)) = func c"
  "Cache.key_func (snd (get_from_dict c obj pl y x mx req)) = Cache.key_func c"
  "has_init (snd (get_from_dict c obj pl y x mx req)) = has_init c"
  "max_size (snd (get_from_dict c obj pl y x mx req)) = max_size c"
  by (simp_all add: get_from_dict_unfold cache_hit_config cache_insert_config cache_evict_config
      split: option.split sum.split)

lemma init_cache_func [simp]: "func (init_cache c obj) = func c"
  by (simp add: init_cache_def)

lemma wrapper_func [simp]: "func (snd (wrapper c obj pl y x mx req)) = func c"
  by (simp add: wrapper_def get_from_dict_config)

lemma run_op_func [simp]: "func (snd (run_op c op)) = func c"
  by (cases op) (simp_all add: clear_cache_def)

lemma run_ops_func [simp]: "func (snd (run_ops c ops)) = func c"
  by (induction ops arbitrary: c) (simp_all add: split_beta Let_def)

lemma Cache_init_func [simp]: "func (Cache_init f) = f"
  by (simp add: Cache_init_def)

lemma cache_inv_get_from_dict:
  assumes inv: "cache_inv P c ls" and kf: "Cache.key_func c = Some kf"
    and P: "\<And>res. func c obj pl y x mx req = Inr res \<Longrightarrow> P (kf (PList pl), kf y, [mx, req]) res"
  shows "\<exists>ls'. cache_inv P (snd (get_from_dict c obj pl y x mx req)) ls'"
    and "(\<exists>v. fst (get_from_dict c obj pl y x mx req) = Inr (Some v)
            \<and> P (kf (PList pl), kf y, [mx, req]) v)
       \<or> (\<exists>e. fst (get_from_dict c obj pl y x mx req) = Inl e
            \<and> func c obj pl y x mx req = Inl e)"
proof -
  let ?key = "(kf (PList pl), kf y, [mx, req])"
  let ?g = "get_from_dict c obj pl y x mx req"
  have "(\<exists>ls'. cache_inv P (snd ?g) ls')
    \<and> ((\<exists>v. fst ?g = Inr (Some v) \<and> P ?key v) \<or> (\<exists>e. fst ?g = Inl e \<and> func c obj pl y x mx req = Inl e))"
  proof (cases "map_of (cache_dict c) ?key")
    case (Some lnk)
    then have g: "?g = cache_hit c lnk" using kf by (simp add: get_from_dict_unfold)
    obtain r c' where h: "cache_hit c lnk = (r, c')" by (cases "cache_hit c lnk")
    from cache_invD(8) [OF inv Some] obtain v where
      v: "RESULT (heap c ! lnk) = Some v" "P ?key v" by blast
    from cache_hit_facts(1) [OF h] v have "fst ?g = Inr (Some v)" by (simp add: g h)
    with cache_inv_cache_hit [OF inv Some] v(2) show ?thesis by (auto simp: g)
  next
    case None
    have invm: "cache_inv P (count_miss c) ls"
      using inv unfolding cache_inv_def by (simp add: heap_valid_count_miss)
    have missm: "map_of (cache_dict (count_miss c)) ?key = None" using None by simp
    show ?thesis
    proof (cases "func c obj pl y x mx req")
      case (Inl e)
      then have "?g = (Inl e, count_miss c)" using kf None by (simp add: get_from_dict_unfold)
      with invm Inl show ?thesis by auto
    next
      case (Inr res)
      note Pk = P [OF Inr]
      show ?thesis
      proof (cases "full c")
        case True
        then have g: "?g = cache_evict (count_miss c) ?key res"
          using kf None Inr by (simp add: get_from_dict_unfold)
        have "full (count_miss c)" using True by simp
        from cache_inv_cache_evict [OF invm missm Pk this] Pk show ?thesis
          unfolding g by blast
      next
        case False
        then have g: "?g = cache_insert (count_miss c) ?key res"
          using kf None Inr by (simp add: get_from_dict_unfold)
        from cache_inv_cache_insert [OF invm missm Pk] Pk show ?thesis
          unfolding g by blast
      qed
    qed
  qed
  then show "\<exists>ls'. cache_inv P (snd ?g) ls'"
    and "(\<exists>v. fst ?g = Inr (Some v) \<and> P ?key v) \<or> (\<exists>e. fst ?g = Inl e \<and> func c obj pl y x mx req = Inl e)"
    by blast+
qed

lemma init_cache_key_func:
  "has_init c \<longrightarrow> Cache.key_func c \<noteq> None \<Longrightarrow> Cache.key_func (init_cache c obj) \<noteq> None"
  by (simp add: init_cache_def)

section \<open>The capacity bound\<close>

lemma size_ok_cong:
  "cache_dict c' = cache_dict c \<Longrightarrow> max_size c' = max_size c \<Longrightarrow> full c' = full c \<Longrightarrow>
   size_ok c' = size_ok c"
  by (simp add: size_ok_def)

lemma length_delete_less:
  "map_of d k = Some a \<Longrightarrow> length (AList.delete k d) < length d"
  unfolding AList.delete_eq
  by (rule length_filter_less [of "(k, a)"]) (auto dest: map_of_SomeD)

lemma length_update_le: "length (AList.update k v d) \<le> Suc (length d)"
  by (induction d) auto

lemma size_ok_Cache_init: "size_ok (Cache_init f)"
  by (simp add: size_ok_def Cache_init_def)

lemma size_ok_clear_cache: "size_ok c \<Longrightarrow> size_ok (clear_cache c)"
  by (simp add: size_ok_def clear_cache_def le_max_iff_disj)

lemma size_ok_init_cache: "size_ok c \<Longrightarrow> size_ok (init_cache c obj)"
  by (simp add: size_ok_def init_cache_def le_max_iff_disj)

lemma size_ok_cache_hit:
  assumes "size_ok c"
  shows "size_ok (snd (cache_hit c lnk))"
proof -
  obtain r c' where h: "cache_hit c lnk = (r, c')" by (cases "cache_hit c lnk")
  from cache_hit_facts [OF h] have "size_ok c' = size_ok c" by (intro size_ok_cong)
  with assms show ?thesis by (simp add: h)
qed

lemma size_ok_cache_evict:
  assumes s: "size_ok c" and f: "full c"
  shows "size_ok (snd (cache_evict c key res))"
proof (cases "evict_oldkey c key")
  case None
  then show ?thesis using s by (simp add: cache_evict_unfold size_ok_def)
next
  case (Some k)
  show ?thesis
  proof (cases "map_of (cache_dict c) k")
    case None
    then show ?thesis using s Some by (simp add: cache_evict_unfold size_ok_def)
  next
    case (Some l)
    let ?d = "AList.update key (root c) (AList.delete k (cache_dict c))"
    have "length ?d \<le> Suc (length (AList.delete k (cache_dict c)))" by (rule length_update_le)
    with length_delete_less [OF Some] have len: "length ?d \<le> length (cache_dict c)" by simp
    have dist: "distinct (map fst ?d)"
      using s by (simp add: size_ok_def distinct_update distinct_delete)
    have "snd (cache_evict c key res) = (evict_state c key res)\<lparr>cache_dict := ?d\<rparr>"
      using Some \<open>evict_oldkey c key = Some k\<close> by (simp add: cache_evict_unfold)
    then show ?thesis using s f len dist by (auto simp: size_ok_def)
  qed
qed

lemma size_ok_cache_insert:
  assumes s: "size_ok c" and f: "\<not> full c"
  shows "size_ok (snd (cache_insert c key res))"
proof -
  let ?d = "AList.update key (length (heap c)) (cache_dict c)"
  have len: "length ?d \<le> Suc (length (cache_dict c))" by (rule length_update_le)
  have dist: "distinct (map fst ?d)" using s by (simp add: size_ok_def distinct_update)
  show ?thesis
  proof (cases "max_size c")
    case None
    then show ?thesis using dist by (simp add: cache_insert_unfold size_ok_def)
  next
    case (Some n)
    have ne: "?d \<noteq> []" by (cases "cache_dict c") auto
    from s f Some have "cache_dict c = [] \<or> int (length (cache_dict c)) < n"
      by (simp add: size_ok_def)
    then have "int (length ?d) \<le> max n 1"
    proof
      assume "cache_dict c = []"
      then show ?thesis by simp
    next
      assume "int (length (cache_dict c)) < n"
      with len show ?thesis by linarith
    qed
    then show ?thesis using Some dist ne by (auto simp: cache_insert_unfold size_ok_def)
  qed
qed

lemma size_ok_count_miss: "size_ok c \<Longrightarrow> size_ok (count_miss c)"
  by (simp add: size_ok_cong [of "count_miss c" c])

lemma size_ok_get_from_dict:
  assumes s: "size_ok c"
  shows "size_ok (snd (get_from_dict c obj pl y x mx req))"
proof -
  note sm = size_ok_count_miss [OF s]
  have e: "full c \<Longrightarrow> size_ok (snd (cache_evict (count_miss c) key res))" for key res
    using size_ok_cache_evict [OF sm] by simp
  have i: "\<not> full c \<Longrightarrow> size_ok (snd (cache_insert (count_miss c) key res))" for key res
    using size_ok_cache_insert [OF sm] by simp
  show ?thesis using s sm e i size_ok_cache_hit [OF s]
    by (simp add: get_from_dict_unfold split: option.split sum.split)
qed

lemma size_ok_wrapper: "size_ok c \<Longrightarrow> size_ok (snd (wrapper c obj pl y x mx req))"
  by (simp add: wrapper_def size_ok_get_from_dict size_ok_init_cache)

lemma size_ok_run_op: "size_ok c \<Longrightarrow> size_ok (snd (run_op c op))"
  by (cases op) (simp_all add: size_ok_wrapper size_ok_clear_cache)

lemma size_ok_run_ops: "size_ok c \<Longrightarrow> size_ok (snd (run_ops c ops))"
proof (induction ops arbitrary: c)
  case Nil
  then show ?case by simp
next
  case (Cons op ops)
  from Cons.IH [OF size_ok_run_op [OF Cons.prems, of op]]
  show ?case by (simp add: split_beta Let_def)
qed

section \<open>What the search reads, and cache transparency\<close>

lemma revise_loop_cong:
  assumes "max_err kb' = max_err kb"
    and "\<And>cand. call_logic_forward kb' cand x' = call_logic_forward kb cand x"
  shows "revise_loop kb' pl y x' ridx cs acc = revise_loop kb pl y x ridx cs acc"
proof (induction cs arbitrary: acc)
  case Nil
  show ?case by (cases acc) simp
next
  case (Cons c cs)
  show ?case by (cases acc) (simp add: assms Cons.IH split: sum.split)
qed

lemma revise_at_idx_cong:
  assumes "pseudo_label_list kb' = pseudo_label_list kb" and "max_err kb' = max_err kb"
    and "\<And>cand. call_logic_forward kb' cand x' = call_logic_forward kb cand x"
  shows "revise_at_idx kb' pl y x' ridx = revise_at_idx kb pl y x ridx"
  unfolding revise_at_idx_def assms(1) by (rule revise_loop_cong [OF assms(2,3)])

lemma revision_loop_cong:
  assumes "pseudo_label_list kb' = pseudo_label_list kb" and "max_err kb' = max_err kb"
    and "\<And>cand. call_logic_forward kb' cand x' = call_logic_forward kb cand x"
  shows "revision_loop kb' pl y x' combos acc = revision_loop kb pl y x combos acc"
proof (induction combos arbitrary: acc)
  case Nil
  show ?case by (cases acc) simp
next
  case (Cons ns combos)
  show ?case
    by (cases acc) (simp add: revise_at_idx_cong [OF assms] Cons.IH split: sum.split)
qed

lemma revision_cong:
  assumes "pseudo_label_list kb' = pseudo_label_list kb" and "max_err kb' = max_err kb"
    and "\<And>cand. call_logic_forward kb' cand x' = call_logic_forward kb cand x"
  shows "revision kb' k pl y x' = revision kb k pl y x"
  unfolding revision_def by (rule revision_loop_cong [OF assms])

lemma first_loop_cong:
  assumes "pseudo_label_list kb' = pseudo_label_list kb" and "max_err kb' = max_err kb"
    and "\<And>cand. call_logic_forward kb' cand x' = call_logic_forward kb cand x"
  shows "first_loop kb' pl y x' mx levels acc = first_loop kb pl y x mx levels acc"
proof (induction levels arbitrary: acc)
  case Nil
  show ?case by (cases acc) simp
next
  case (Cons k levels)
  show ?case
    by (cases acc) (simp add: revision_cong [OF assms] Cons.IH Let_def split: sum.split)
qed

lemma second_loop_cong:
  assumes "pseudo_label_list kb' = pseudo_label_list kb" and "max_err kb' = max_err kb"
    and "\<And>cand. call_logic_forward kb' cand x' = call_logic_forward kb cand x"
  shows "second_loop kb' pl y x' mx levels acc = second_loop kb pl y x mx levels acc"
proof (induction levels arbitrary: acc)
  case Nil
  show ?case by (cases acc) simp
next
  case (Cons k levels)
  show ?case
    by (cases acc) (simp add: revision_cong [OF assms] Cons.IH split: sum.split)
qed

lemma abduce_by_search_cong:
  assumes "pseudo_label_list kb' = pseudo_label_list kb" and "max_err kb' = max_err kb"
    and "\<And>cand. call_logic_forward kb' cand x' = call_logic_forward kb cand x"
  shows "abduce_by_search kb' pl y x' mx req = abduce_by_search kb pl y x mx req"
  unfolding abduce_by_search_def
  by (simp add: first_loop_cong [OF assms] second_loop_cong [OF assms]
      split: sum.split first_loop_exit.split)

lemma abduce_by_search_context:
  "num_args kb \<noteq> 2 \<Longrightarrow> abduce_by_search kb pl y x' mx req = abduce_by_search kb pl y x mx req"
  by (rule abduce_by_search_cong) (simp_all add: call_logic_forward_def)

lemma abduce_by_search_use_cache:
  "abduce_by_search (kb\<lparr>use_cache := b\<rparr>) pl y x mx req = abduce_by_search kb pl y x mx req"
  by (rule abduce_by_search_cong) (simp_all add: call_logic_forward_def)

lemma stored_ok_search:
  assumes i: "inj (KBBase.key_func obj)" and n: "num_args obj \<noteq> 2"
    and r: "abduce_by_search obj pl y x mx req = Inr res"
  shows "stored_ok obj (KBBase.key_func obj (PList pl), KBBase.key_func obj y, [mx, req]) res"
  unfolding stored_ok_def
proof (intro allI impI)
  fix pl' y' x' mx' req'
  assume "(KBBase.key_func obj (PList pl'), KBBase.key_func obj y', [mx', req'])
    = (KBBase.key_func obj (PList pl), KBBase.key_func obj y, [mx, req])"
  with i have "pl' = pl" "y' = y" "mx' = mx" "req' = req" by (auto dest: injD)
  with r abduce_by_search_context [OF n, of pl y x' mx req x]
  show "abduce_by_search obj pl' y' x' mx' req' = Inr res" by simp
qed

lemma transparent_inv_Cache_init: "transparent_inv obj (Cache_init abduce_by_search)"
  unfolding transparent_inv_def using cache_inv_Cache_init [of "stored_ok obj" abduce_by_search]
  by (auto simp: Cache_init_def)

lemma init_cache_key_func_eq:
  "has_init c \<longrightarrow> Cache.key_func c = Some (KBBase.key_func obj) \<Longrightarrow>
   Cache.key_func (init_cache c obj) = Some (KBBase.key_func obj)"
  by (simp add: init_cache_def)

lemma transparent_step:
  assumes t: "transparent_inv obj c" and u: "use_cache obj"
    and i: "inj (KBBase.key_func obj)" and n: "num_args obj \<noteq> 2"
  shows "fst (wrapper c obj pl y x mx req) = returned (abduce_by_search obj pl y x mx req)"
    and "transparent_inv obj (snd (wrapper c obj pl y x mx req))"
proof -
  let ?kf = "KBBase.key_func obj"
  let ?c1 = "init_cache c obj"
  let ?g = "get_from_dict ?c1 obj pl y x mx req"
  from t obtain ls where inv: "cache_inv (stored_ok obj) c ls"
    and f: "func c = abduce_by_search"
    and k: "has_init c \<longrightarrow> Cache.key_func c = Some ?kf"
    unfolding transparent_inv_def by blast
  from cache_inv_init_cache [OF inv] obtain ls1 where inv1: "cache_inv (stored_ok obj) ?c1 ls1" ..
  have kf1: "Cache.key_func ?c1 = Some ?kf" using k by (rule init_cache_key_func_eq)
  have f1: "func ?c1 = abduce_by_search" using f by simp
  have P: "stored_ok obj (?kf (PList pl), ?kf y, [mx, req]) res"
    if "func ?c1 obj pl y x mx req = Inr res" for res
  proof -
    from that have "abduce_by_search obj pl y x mx req = Inr res" by (simp add: f)
    then show ?thesis by (rule stored_ok_search [OF i n])
  qed
  note g = cache_inv_get_from_dict [OF inv1 kf1 P]
  have w: "wrapper c obj pl y x mx req = ?g" using u by (simp add: wrapper_def)
  from g(2) show "fst (wrapper c obj pl y x mx req) = returned (abduce_by_search obj pl y x mx req)"
  proof
    assume "\<exists>v. fst ?g = Inr (Some v) \<and> stored_ok obj (?kf (PList pl), ?kf y, [mx, req]) v"
    then obtain v where v: "fst ?g = Inr (Some v)"
      and s: "stored_ok obj (?kf (PList pl), ?kf y, [mx, req]) v" by blast
    from s have "abduce_by_search obj pl y x mx req = Inr v" unfolding stored_ok_def by blast
    with v show ?thesis by (simp add: w returned_def)
  next
    assume "\<exists>e. fst ?g = Inl e \<and> func ?c1 obj pl y x mx req = Inl e"
    then show ?thesis by (auto simp: w returned_def f)
  qed
  show "transparent_inv obj (snd (wrapper c obj pl y x mx req))"
    unfolding transparent_inv_def w using g(1) f1 kf1
    by (simp add: get_from_dict_config)
qed

lemma transparent_run:
  assumes u: "use_cache obj" and i: "inj (KBBase.key_func obj)" and n: "num_args obj \<noteq> 2"
  shows "transparent_inv obj c \<Longrightarrow>
    transparent_inv obj (snd (run_ops c (map (call_op obj) history)))"
proof (induction history arbitrary: c)
  case Nil
  then show ?case by simp
next
  case (Cons a history)
  obtain pl y x mx req where a: "a = (pl, y, x, mx, req)" by (cases a)
  from transparent_step(2) [OF Cons.prems u i n, of pl y x mx req]
  have "transparent_inv obj (snd (run_op c (call_op obj a)))" by (simp add: a)
  from Cons.IH [OF this] show ?case by (simp add: split_beta Let_def)
qed

lemma cache_inv_wrapper:
  assumes inv: "cache_inv (\<lambda>k v. True) c ls" and kb: "key_bound c"
  shows "\<exists>ls'. cache_inv (\<lambda>k v. True) (snd (wrapper c obj pl y x mx req)) ls'"
    and "key_bound (snd (wrapper c obj pl y x mx req))"
proof -
  from cache_inv_init_cache [OF inv] obtain ls1 where
    inv1: "cache_inv (\<lambda>k v. True) (init_cache c obj) ls1" ..
  have "Cache.key_func (init_cache c obj) \<noteq> None"
    using kb by (cases "has_init c") (simp_all add: key_bound_def init_cache_def)
  then obtain kf where kf: "Cache.key_func (init_cache c obj) = Some kf" by blast
  from cache_inv_get_from_dict(1) [OF inv1 kf] inv
  show "\<exists>ls'. cache_inv (\<lambda>k v. True) (snd (wrapper c obj pl y x mx req)) ls'"
    by (auto simp: wrapper_def)
  show "key_bound (snd (wrapper c obj pl y x mx req))"
    using kb kf by (simp add: wrapper_def key_bound_def get_from_dict_config)
qed

lemma cache_inv_run_ops:
  assumes "Clear_cache \<notin> set ops"
  shows "cache_inv (\<lambda>k v. True) c ls \<Longrightarrow> key_bound c \<Longrightarrow>
    (\<exists>ls'. cache_inv (\<lambda>k v. True) (snd (run_ops c ops)) ls') \<and> key_bound (snd (run_ops c ops))"
  using assms
proof (induction ops arbitrary: c ls)
  case Nil
  then show ?case by auto
next
  case (Cons op ops)
  from Cons.prems(3) obtain obj pl y x mx req where op: "op = Call obj pl y x mx req"
    by (cases op) auto
  from cache_inv_wrapper [OF Cons.prems(1,2), of obj pl y x mx req]
  obtain ls1 where "cache_inv (\<lambda>k v. True) (snd (run_op c op)) ls1"
    and "key_bound (snd (run_op c op))" by (auto simp: op)
  from Cons.IH [OF this] Cons.prems(3) show ?case by (simp add: split_beta Let_def)
qed

lemma key_bound_Cache_init: "key_bound (Cache_init f)"
  by (simp add: key_bound_def Cache_init_def)

lemma singleton_dict:
  assumes "map_of d k = Some a" and "length d \<le> 1"
  shows "d = [(k, a)]"
proof -
  from assms obtain p where d: "d = [p]" by (cases d) auto
  with assms(1) show ?thesis by (cases p) (auto split: if_splits)
qed

section \<open>The context is not part of the cache key\<close>

lemma entry_invD:
  "entry_inv c \<Longrightarrow> heap_valid c"
  "entry_inv c \<Longrightarrow> map_of (cache_dict c) k = Some a \<Longrightarrow> a \<noteq> root c"
  "entry_inv c \<Longrightarrow> map_of (cache_dict c) k = Some a \<Longrightarrow> KEY (heap c ! a) = Some k"
  unfolding entry_inv_def by blast+

lemma entry_invI:
  "heap_valid c \<Longrightarrow>
   (\<And>k a. map_of (cache_dict c) k = Some a \<Longrightarrow> a \<noteq> root c \<and> KEY (heap c ! a) = Some k) \<Longrightarrow>
   entry_inv c"
  unfolding entry_inv_def by blast

lemma entry_inv_Cache_init: "entry_inv (Cache_init f)"
  by (rule entry_invI [OF heap_valid_Cache_init]) (simp add: Cache_init_def)

lemma entry_inv_clear_cache: "entry_inv c \<Longrightarrow> entry_inv (clear_cache c)"
  by (rule entry_invI [OF heap_valid_clear_cache [OF entry_invD(1)]])
    (simp_all add: clear_cache_def)

lemma entry_inv_init_cache:
  assumes "entry_inv c"
  shows "entry_inv (init_cache c obj)"
proof (cases "has_init c")
  case True
  with assms show ?thesis by (simp add: init_cache_def)
next
  case False
  show ?thesis
    by (rule entry_invI [OF heap_valid_init_cache [OF entry_invD(1) [OF assms]]])
      (simp add: init_cache_def False)
qed

lemma entry_inv_count_miss: "entry_inv c \<Longrightarrow> entry_inv (count_miss c)"
  by (rule entry_invI [OF heap_valid_count_miss [OF entry_invD(1)]])
    (simp_all add: entry_invD)

text \<open>One lookup: the entries that stay keep their link and their result.\<close>

lemma entry_step_hit:
  assumes e: "entry_inv c" and m: "map_of (cache_dict c) k0 = Some lnk"
  shows "entry_inv (snd (cache_hit c lnk))"
    and "map_of (cache_dict c) k = Some a \<Longrightarrow>
      map_of (cache_dict (snd (cache_hit c lnk))) k = Some a
      \<and> RESULT (heap (snd (cache_hit c lnk)) ! a) = RESULT (heap c ! a)"
proof -
  obtain r c' where h: "cache_hit c lnk = (r, c')" by (cases "cache_hit c lnk")
  note f = cache_hit_facts [OF h]
  have v: "heap_valid c'" using heap_valid_cache_hit [OF entry_invD(1) [OF e] m] h by simp
  show "entry_inv (snd (cache_hit c lnk))" unfolding h snd_conv
    by (rule entry_invI [OF v]) (simp add: f entry_invD(2,3) [OF e])
  show "map_of (cache_dict c) k = Some a \<Longrightarrow>
      map_of (cache_dict (snd (cache_hit c lnk))) k = Some a
      \<and> RESULT (heap (snd (cache_hit c lnk)) ! a) = RESULT (heap c ! a)"
    unfolding h snd_conv by (simp add: f)
qed

lemma entry_step_insert:
  assumes e: "entry_inv c" and miss: "map_of (cache_dict c) key = None"
  shows "entry_inv (snd (cache_insert c key res))"
    and "map_of (cache_dict c) k = Some a \<Longrightarrow>
      map_of (cache_dict (snd (cache_insert c key res))) k = Some a
      \<and> RESULT (heap (snd (cache_insert c key res)) ! a) = RESULT (heap c ! a)"
proof -
  note v = entry_invD(1) [OF e]
  have ei: "entry_inv (insert_state c key res)"
  proof (rule entry_invI [OF heap_valid_insert_state [OF v]])
    fix k a assume m: "map_of (cache_dict (insert_state c key res)) k = Some a"
    show "a \<noteq> root (insert_state c key res) \<and> KEY (heap (insert_state c key res) ! a) = Some k"
    proof (cases "k = key")
      case True
      with m have "a = length (heap c)" by (simp add: update_conv')
      with True heap_validD(1) [OF v] show ?thesis by (simp add: insert_state_heap)
    next
      case False
      with m have m': "map_of (cache_dict c) k = Some a" by (simp add: update_conv')
      from heap_validD(3) [OF v m'] entry_invD(2,3) [OF e m']
      show ?thesis by (simp add: insert_state_heap)
    qed
  qed
  have ef: "entry_inv ((insert_state c key res)\<lparr>full := b\<rparr>)" for b
    by (rule entry_invI [OF heap_valid_full_update [OF entry_invD(1) [OF ei]]])
      (use entry_invD(2,3) [OF ei] in simp)
  show "entry_inv (snd (cache_insert c key res))"
    using ei ef by (simp add: cache_insert_unfold split: option.split)
  assume m: "map_of (cache_dict c) k = Some a"
  with miss have "k \<noteq> key" by auto
  with m heap_validD(3) [OF v m]
  show "map_of (cache_dict (snd (cache_insert c key res))) k = Some a
      \<and> RESULT (heap (snd (cache_insert c key res)) ! a) = RESULT (heap c ! a)"
    by (simp add: cache_insert_unfold update_conv' insert_state_heap split: option.split)
qed

lemma entry_step_evict:
  assumes e: "entry_inv c" and miss: "map_of (cache_dict c) key = None"
  shows "entry_inv (snd (cache_evict c key res))"
    and "map_of (cache_dict c) k = Some a \<Longrightarrow>
      map_of (cache_dict (snd (cache_evict c key res))) k \<noteq> None \<Longrightarrow>
      map_of (cache_dict (snd (cache_evict c key res))) k = Some a
      \<and> RESULT (heap (snd (cache_evict c key res)) ! a) = RESULT (heap c ! a)"
proof -
  note v = entry_invD(1) [OF e]
  let ?nr = "NEXT (heap c ! root c)"
  let ?es = "evict_state c key res"
  note ves = heap_valid_evict_state [OF v, of key res]
  have keep: "a \<noteq> root c \<and> (evict_oldkey c key \<noteq> Some k \<longrightarrow> a \<noteq> ?nr)"
    if m: "map_of (cache_dict c) k = Some a" for k a
  proof -
    from entry_invD(2,3) [OF e m] have r: "a \<noteq> root c" and ky: "KEY (heap c ! a) = Some k"
      by simp_all
    show ?thesis
    proof (intro conjI impI)
      show "a \<noteq> root c" by (rule r)
      assume ne: "evict_oldkey c key \<noteq> Some k"
      show "a \<noteq> ?nr"
      proof
        assume a: "a = ?nr"
        with r have "?nr \<noteq> root c" by simp
        then have "evict_oldkey c key = KEY (heap c ! ?nr)" by (simp add: evict_oldkey_eq [OF v])
        with a ky ne show False by simp
      qed
    qed
  qed
  show "entry_inv (snd (cache_evict c key res))"
  proof (cases "evict_oldkey c key")
    case None
    have "entry_inv ?es"
    proof (rule entry_invI [OF ves])
      fix k a assume "map_of (cache_dict ?es) k = Some a"
      then have m: "map_of (cache_dict c) k = Some a" by simp
      from keep [OF m] None entry_invD(3) [OF e m]
      show "a \<noteq> root ?es \<and> KEY (heap ?es ! a) = Some k"
        by (simp add: evict_state_heap [OF v])
    qed
    with None show ?thesis by (simp add: cache_evict_unfold)
  next
    case (Some ko)
    show ?thesis
    proof (cases "map_of (cache_dict c) ko")
      case None
      have "entry_inv ?es"
      proof (rule entry_invI [OF ves])
        fix k a assume "map_of (cache_dict ?es) k = Some a"
        then have m: "map_of (cache_dict c) k = Some a" by simp
        with None have "k \<noteq> ko" by auto
        with keep [OF m] Some entry_invD(3) [OF e m]
        show "a \<noteq> root ?es \<and> KEY (heap ?es ! a) = Some k"
          by (simp add: evict_state_heap [OF v])
      qed
      with Some None show ?thesis by (simp add: cache_evict_unfold)
    next
      case (Some l)
      note l = Some
      let ?c' = "?es\<lparr>cache_dict := AList.update key (root c) (AList.delete ko (cache_dict c))\<rparr>"
      have c': "snd (cache_evict c key res) = ?c'"
        using \<open>evict_oldkey c key = Some ko\<close> l by (simp add: cache_evict_unfold)
      have nr: "?nr \<noteq> root c"
      proof
        assume "?nr = root c"
        with \<open>evict_oldkey c key = Some ko\<close> have "ko = key" by (simp add: evict_oldkey_eq [OF v])
        with l miss show False by simp
      qed
      have r: "root c < length (heap ?es)" using heap_validD(1) [OF v] by simp
      from heap_valid_cache_dict_update [OF ves r, of key ko]
      have v': "heap_valid ?c'" by simp
      have "entry_inv ?c'"
      proof (rule entry_invI [OF v'])
        fix k a assume m': "map_of (cache_dict ?c') k = Some a"
        show "a \<noteq> root ?c' \<and> KEY (heap ?c' ! a) = Some k"
        proof (cases "k = key")
          case True
          with m' have "a = root c" by (simp add: update_conv')
          with True nr show ?thesis by (simp add: evict_state_heap [OF v])
        next
          case False
          with m' have ko: "k \<noteq> ko" and m: "map_of (cache_dict c) k = Some a"
            by (simp_all add: update_conv' delete_conv' split: if_splits)
          from keep [OF m] ko \<open>evict_oldkey c key = Some ko\<close> entry_invD(3) [OF e m]
          show ?thesis by (simp add: evict_state_heap [OF v])
        qed
      qed
      then show ?thesis by (simp add: c')
    qed
  qed
  assume m: "map_of (cache_dict c) k = Some a"
    and s: "map_of (cache_dict (snd (cache_evict c key res))) k \<noteq> None"
  from m miss have kk: "k \<noteq> key" by auto
  show "map_of (cache_dict (snd (cache_evict c key res))) k = Some a
      \<and> RESULT (heap (snd (cache_evict c key res)) ! a) = RESULT (heap c ! a)"
  proof (cases "evict_oldkey c key")
    case None
    with keep [OF m] m show ?thesis
      by (simp add: cache_evict_unfold evict_state_heap [OF v])
  next
    case (Some ko)
    show ?thesis
    proof (cases "map_of (cache_dict c) ko")
      case None
      with m have "k \<noteq> ko" by auto
      with keep [OF m] m Some None show ?thesis
        by (simp add: cache_evict_unfold evict_state_heap [OF v])
    next
      case (Some l)
      with s kk \<open>evict_oldkey c key = Some ko\<close> have "k \<noteq> ko"
        by (auto simp: cache_evict_unfold update_conv' delete_conv')
      with keep [OF m] m kk Some \<open>evict_oldkey c key = Some ko\<close> show ?thesis
        by (simp add: cache_evict_unfold evict_state_heap [OF v] update_conv' delete_conv')
    qed
  qed
qed

lemma entry_step_get_from_dict:
  assumes e: "entry_inv c"
  shows "entry_inv (snd (get_from_dict c obj pl y x mx req))"
    and "map_of (cache_dict c) k = Some a \<Longrightarrow>
      map_of (cache_dict (snd (get_from_dict c obj pl y x mx req))) k \<noteq> None \<Longrightarrow>
      map_of (cache_dict (snd (get_from_dict c obj pl y x mx req))) k = Some a
      \<and> RESULT (heap (snd (get_from_dict c obj pl y x mx req)) ! a) = RESULT (heap c ! a)"
proof -
  note em = entry_inv_count_miss [OF e]
  show "entry_inv (snd (get_from_dict c obj pl y x mx req))"
    using e em entry_step_hit(1) [OF e] entry_step_insert(1) [OF em] entry_step_evict(1) [OF em]
    by (simp add: get_from_dict_unfold split: option.split sum.split)
  assume m: "map_of (cache_dict c) k = Some a"
    and s: "map_of (cache_dict (snd (get_from_dict c obj pl y x mx req))) k \<noteq> None"
  have m': "map_of (cache_dict (count_miss c)) k = Some a" using m by simp
  show "map_of (cache_dict (snd (get_from_dict c obj pl y x mx req))) k = Some a
      \<and> RESULT (heap (snd (get_from_dict c obj pl y x mx req)) ! a) = RESULT (heap c ! a)"
  proof (cases "Cache.key_func c")
    case None
    with m show ?thesis by (simp add: get_from_dict_unfold)
  next
    case (Some kf)
    note kf = Some
    let ?key = "(kf (PList pl), kf y, [mx, req])"
    show ?thesis
    proof (cases "map_of (cache_dict c) ?key")
      case (Some lnk)
      with kf entry_step_hit(2) [OF e Some m] show ?thesis by (simp add: get_from_dict_unfold)
    next
      case None
      then have miss: "map_of (cache_dict (count_miss c)) ?key = None" by simp
      show ?thesis
      proof (cases "func c obj pl y x mx req")
        case (Inl err)
        with kf None m show ?thesis by (simp add: get_from_dict_unfold)
      next
        case (Inr res)
        show ?thesis
        proof (cases "full c")
          case True
          with kf None Inr have g: "get_from_dict c obj pl y x mx req
              = cache_evict (count_miss c) ?key res" by (simp add: get_from_dict_unfold)
          from entry_step_evict(2) [OF em miss m', of res] s show ?thesis by (simp add: g)
        next
          case False
          with kf None Inr have g: "get_from_dict c obj pl y x mx req
              = cache_insert (count_miss c) ?key res" by (simp add: get_from_dict_unfold)
          from entry_step_insert(2) [OF em miss m', of res] show ?thesis by (simp add: g)
        qed
      qed
    qed
  qed
qed


lemma entry_inv_wrapper: "entry_inv c \<Longrightarrow> entry_inv (snd (wrapper c obj pl y x mx req))"
  by (simp add: wrapper_def entry_step_get_from_dict(1) entry_inv_init_cache)

lemma entry_inv_run_op: "entry_inv c \<Longrightarrow> entry_inv (snd (run_op c op))"
  by (cases op) (simp_all add: entry_inv_wrapper entry_inv_clear_cache)

lemma entry_inv_run_ops: "entry_inv c \<Longrightarrow> entry_inv (snd (run_ops c ops))"
proof (induction ops arbitrary: c)
  case Nil
  then show ?case by simp
next
  case (Cons op ops)
  from Cons.IH [OF entry_inv_run_op [OF Cons.prems, of op]]
  show ?case by (simp add: split_beta Let_def)
qed

lemma run_op_config:
  assumes "has_init c"
  shows "has_init (snd (run_op c op))"
    and "Cache.key_func (snd (run_op c op)) = Cache.key_func c"
  using assms
  by (cases op; simp add: wrapper_def init_cache_idem get_from_dict_config clear_cache_def)+

lemma entry_step_run_op:
  assumes e: "entry_inv c" and hi: "has_init c" and m: "map_of (cache_dict c) k = Some a"
    and s: "map_of (cache_dict (snd (run_op c op))) k \<noteq> None"
  shows "map_of (cache_dict (snd (run_op c op))) k = Some a
    \<and> RESULT (heap (snd (run_op c op)) ! a) = RESULT (heap c ! a)"
proof (cases op)
  case (Call obj pl y x mx req)
  show ?thesis
  proof (cases "use_cache obj")
    case True
    with hi have w: "run_op c op = get_from_dict c obj pl y x mx req"
      by (simp add: Call wrapper_def init_cache_idem)
    from entry_step_get_from_dict(2) [OF e m, of obj pl y x mx req] s
    show ?thesis by (simp add: w)
  next
    case False
    with m show ?thesis by (simp add: Call wrapper_def)
  qed
next
  case Clear_cache
  with s show ?thesis by (simp add: clear_cache_def)
qed

lemma stays_in_cache_entry:
  assumes kf: "Cache.key_func c = Some kf"
  shows "entry_inv c \<Longrightarrow> has_init c \<Longrightarrow> Cache.key_func c = Some kf \<Longrightarrow>
    map_of (cache_dict c) (kf (PList pl), kf y, [mx, req]) = Some a \<Longrightarrow>
    stays_in_cache c pl y mx req ops \<Longrightarrow>
    has_init (snd (run_ops c ops)) \<and> Cache.key_func (snd (run_ops c ops)) = Some kf
    \<and> map_of (cache_dict (snd (run_ops c ops))) (kf (PList pl), kf y, [mx, req]) = Some a
    \<and> RESULT (heap (snd (run_ops c ops)) ! a) = RESULT (heap c ! a)"
proof (induction ops arbitrary: c)
  case Nil
  then show ?case by simp
next
  case (Cons op ops)
  let ?c1 = "snd (run_op c op)"
  note cf = run_op_config [OF Cons.prems(2), of op]
  from Cons.prems(5) have ic: "in_cache ?c1 pl y mx req"
    and st: "stays_in_cache ?c1 pl y mx req ops" by simp_all
  from ic cf(2) Cons.prems(3)
  have s: "map_of (cache_dict ?c1) (kf (PList pl), kf y, [mx, req]) \<noteq> None"
    by (simp add: in_cache_def)
  from entry_step_run_op [OF Cons.prems(1,2,4) s]
  have m1: "map_of (cache_dict ?c1) (kf (PList pl), kf y, [mx, req]) = Some a"
    and r1: "RESULT (heap ?c1 ! a) = RESULT (heap c ! a)" by simp_all
  have k1: "Cache.key_func ?c1 = Some kf" using cf(2) Cons.prems(3) by simp
  from Cons.IH [OF entry_inv_run_op [OF Cons.prems(1)] cf(1) k1 m1 st] r1
  show ?case by (simp add: split_beta Let_def)
qed

lemma hit_while_in_cache:
  assumes u: "use_cache obj" and e: "entry_inv c"
    and first: "wrapper c obj pl y x mx req = (Inr r, c')"
    and st: "stays_in_cache c' pl y mx req ops"
  shows "fst (wrapper (snd (run_ops c' ops)) obj pl y x' mx req) = Inr r
    \<and> hits (snd (wrapper (snd (run_ops c' ops)) obj pl y x' mx req))
        = hits (snd (run_ops c' ops)) + 1
    \<and> misses (snd (wrapper (snd (run_ops c' ops)) obj pl y x' mx req))
        = misses (snd (run_ops c' ops))"
proof -
  let ?c1 = "init_cache c obj"
  let ?c2 = "snd (run_ops c' ops)"
  have v1: "heap_valid ?c1" using entry_invD(1) [OF e] by (rule heap_valid_init_cache)
  from first u have g: "get_from_dict ?c1 obj pl y x mx req = (Inr r, c')"
    by (simp add: wrapper_def)
  then obtain kf where kf: "Cache.key_func ?c1 = Some kf"
    by (cases "Cache.key_func ?c1") (simp_all add: get_from_dict_unfold)
  from get_from_dict_stores [OF v1 kf g] has_init_init_cache [of c obj]
  obtain a where kf': "Cache.key_func c' = Some kf" and hi: "has_init c'"
    and m: "map_of (cache_dict c') (kf (PList pl), kf y, [mx, req]) = Some a"
    and res: "RESULT (heap c' ! a) = r" by auto
  have e': "entry_inv c'" using entry_inv_wrapper [OF e, of obj pl y x mx req] first by simp
  from stays_in_cache_entry [OF kf' e' hi kf' m st] res
  have hi2: "has_init ?c2" and kf2: "Cache.key_func ?c2 = Some kf"
    and m2: "map_of (cache_dict ?c2) (kf (PList pl), kf y, [mx, req]) = Some a"
    and r2: "RESULT (heap ?c2 ! a) = r" by simp_all
  obtain r' c'' where h: "cache_hit ?c2 a = (r', c'')" by (cases "cache_hit ?c2 a")
  from u hi2 kf2 m2 h have "wrapper ?c2 obj pl y x' mx req = (r', c'')"
    by (simp add: wrapper_def init_cache_idem get_from_dict_unfold)
  with cache_hit_facts [OF h] r2 show ?thesis by simp
qed

lemma wrapper_in_cache:
  assumes u: "use_cache obj" and v: "heap_valid c"
    and first: "wrapper c obj pl y x mx req = (Inr r, c')"
  shows "in_cache c' pl y mx req"
proof -
  let ?c1 = "init_cache c obj"
  have v1: "heap_valid ?c1" using v by (rule heap_valid_init_cache)
  from first u have g: "get_from_dict ?c1 obj pl y x mx req = (Inr r, c')"
    by (simp add: wrapper_def)
  then obtain kf where kf: "Cache.key_func ?c1 = Some kf"
    by (cases "Cache.key_func ?c1") (simp_all add: get_from_dict_unfold)
  from get_from_dict_stores [OF v1 kf g] show ?thesis by (auto simp: in_cache_def)
qed

lemma same_key_calls_stay:
  assumes u: "use_cache obj"
  shows "heap_valid c \<Longrightarrow> wrapper c obj pl y x mx req = (Inr r, c') \<Longrightarrow>
    stays_in_cache c' pl y mx req (map (\<lambda>x'. Call obj pl y x' mx req) xs)"
proof (induction xs arbitrary: c x c')
  case Nil
  show ?case by simp
next
  case (Cons x' xs)
  from wrapper_hit_after [OF Cons.prems(1) u u Cons.prems(2), of x']
  obtain c'' where w: "wrapper c' obj pl y x' mx req = (Inr r, c'')" by blast
  have v: "heap_valid c'" using heap_valid_wrapper [OF Cons.prems(1), of obj pl y x mx req]
    by (simp add: Cons.prems(2))
  from wrapper_in_cache [OF u v w] Cons.IH [OF v w] w show ?case by simp
qed

text \<open>
  C8, as stated, fails: the key leaves the context out, but the cache is bounded. On an
  instance with capacity 1 the first and the third call differ only in the context, the
  second call looks another key up and evicts the entry of the first; the third call is
  a miss and the search runs again (no hit, three misses).
\<close>

theorem context_not_in_cache_key_counterexample:
  "fst (run_ops (Cache_init abduce_by_search)
      [Call (sized_kb 1) [PInt 0, PInt 0] (PInt 1) PNone 2 0,
       Call (sized_kb 1) [PInt 0, PInt 0] (PInt 2) PNone 2 0,
       Call (sized_kb 1) [PInt 0, PInt 0] (PInt 1) (PInt 7) 2 0])
    = [Inr (Some ([[PInt 1, PInt 0], [PInt 0, PInt 1]], [PInt 1, PInt 1])),
       Inr (Some ([[PInt 1, PInt 1]], [PInt 2])),
       Inr (Some ([[PInt 1, PInt 0], [PInt 0, PInt 1]], [PInt 1, PInt 1]))]
   \<and> hits (snd (run_ops (Cache_init abduce_by_search)
      [Call (sized_kb 1) [PInt 0, PInt 0] (PInt 1) PNone 2 0,
       Call (sized_kb 1) [PInt 0, PInt 0] (PInt 2) PNone 2 0,
       Call (sized_kb 1) [PInt 0, PInt 0] (PInt 1) (PInt 7) 2 0])) = 0
   \<and> misses (snd (run_ops (Cache_init abduce_by_search)
      [Call (sized_kb 1) [PInt 0, PInt 0] (PInt 1) PNone 2 0,
       Call (sized_kb 1) [PInt 0, PInt 0] (PInt 2) PNone 2 0,
       Call (sized_kb 1) [PInt 0, PInt 0] (PInt 1) (PInt 7) 2 0])) = 3"
  by code_simp

text \<open>
  C8 (amended): the cache key is \<^verbatim>\<open>(key_func(pseudo_label), key_func(y), max_revision_num,
  require_more_revision)\<close> and leaves the context out. After any operations on the cache,
  when a cached call through an instance returns a result and the key of the call stays
  in the dictionary during the operations that follow, a cached call through the instance
  that differs from the first one only in the context is a hit: it returns the result of
  the first call, the hit counter grows by one and the miss counter (the number of
  invocations of the search) stays as it is. Calls that differ from the first one only in
  the context keep the key in the dictionary.
\<close>

theorem context_not_in_cache_key:
  assumes "use_cache obj"
    and "wrapper (snd (run_ops (Cache_init f) ops)) obj pl y x mx req = (Inr r, c')"
    and "stays_in_cache c' pl y mx req ops'"
  shows "fst (wrapper (snd (run_ops c' ops')) obj pl y x' mx req) = Inr r
    \<and> hits (snd (wrapper (snd (run_ops c' ops')) obj pl y x' mx req))
        = hits (snd (run_ops c' ops')) + 1
    \<and> misses (snd (wrapper (snd (run_ops c' ops')) obj pl y x' mx req))
        = misses (snd (run_ops c' ops'))
    \<and> stays_in_cache c' pl y mx req (map (\<lambda>x'. Call obj pl y x' mx req) xs)"
  using hit_while_in_cache [OF assms(1) entry_inv_run_ops [OF entry_inv_Cache_init] assms(2,3)]
    same_key_calls_stay [OF assms(1) heap_valid_run_ops [OF heap_valid_Cache_init] assms(2)]
  by blast

theorem context_not_in_cache_key_witness:
  "use_cache (sized_kb 2)
   \<and> fst (wrapper (snd (run_ops (Cache_init abduce_by_search) [])) (sized_kb 2)
        [PInt 0, PInt 0] (PInt 1) PNone 2 0)
      = Inr (Some ([[PInt 1, PInt 0], [PInt 0, PInt 1]], [PInt 1, PInt 1]))
   \<and> stays_in_cache (snd (wrapper (snd (run_ops (Cache_init abduce_by_search) [])) (sized_kb 2)
        [PInt 0, PInt 0] (PInt 1) PNone 2 0)) [PInt 0, PInt 0] (PInt 1) 2 0
        [Call (sized_kb 2) [PInt 0, PInt 0] (PInt 2) PNone 2 0]
   \<and> fst (wrapper (snd (run_ops (snd (wrapper (snd (run_ops (Cache_init abduce_by_search) []))
              (sized_kb 2) [PInt 0, PInt 0] (PInt 1) PNone 2 0))
            [Call (sized_kb 2) [PInt 0, PInt 0] (PInt 2) PNone 2 0]))
        (sized_kb 2) [PInt 0, PInt 0] (PInt 1) (PInt 7) 2 0)
      = Inr (Some ([[PInt 1, PInt 0], [PInt 0, PInt 1]], [PInt 1, PInt 1]))
   \<and> hits (snd (wrapper (snd (run_ops (snd (wrapper (snd (run_ops (Cache_init abduce_by_search) []))
              (sized_kb 2) [PInt 0, PInt 0] (PInt 1) PNone 2 0))
            [Call (sized_kb 2) [PInt 0, PInt 0] (PInt 2) PNone 2 0]))
        (sized_kb 2) [PInt 0, PInt 0] (PInt 1) (PInt 7) 2 0)) = 1
   \<and> misses (snd (wrapper (snd (run_ops (snd (wrapper (snd (run_ops (Cache_init abduce_by_search) []))
              (sized_kb 2) [PInt 0, PInt 0] (PInt 1) PNone 2 0))
            [Call (sized_kb 2) [PInt 0, PInt 0] (PInt 2) PNone 2 0]))
        (sized_kb 2) [PInt 0, PInt 0] (PInt 1) (PInt 7) 2 0)) = 2
   \<and> stays_in_cache (snd (wrapper (snd (run_ops (Cache_init abduce_by_search) [])) (sized_kb 2)
        [PInt 0, PInt 0] (PInt 1) PNone 2 0)) [PInt 0, PInt 0] (PInt 1) 2 0
        (map (\<lambda>x'. Call (sized_kb 2) [PInt 0, PInt 0] (PInt 1) x' 2 0) [PInt 7, PStr ''a''])"
proof -
  let ?w = "wrapper (snd (run_ops (Cache_init abduce_by_search) [])) (sized_kb 2)
        [PInt 0, PInt 0] (PInt 1) PNone 2 0"
  let ?ops = "[Call (sized_kb 2) [PInt 0, PInt 0] (PInt 2) PNone 2 0]"
  have u: "use_cache (sized_kb 2)" by code_simp
  have r: "fst ?w = Inr (Some ([[PInt 1, PInt 0], [PInt 0, PInt 1]], [PInt 1, PInt 1]))"
    by code_simp
  have st: "stays_in_cache (snd ?w) [PInt 0, PInt 0] (PInt 1) 2 0 ?ops" by code_simp
  have h: "hits (snd (run_ops (snd ?w) ?ops)) = 0" "misses (snd (run_ops (snd ?w) ?ops)) = 2"
    by code_simp+
  have w: "?w = (Inr (Some ([[PInt 1, PInt 0], [PInt 0, PInt 1]], [PInt 1, PInt 1])), snd ?w)"
    using r by (simp add: prod_eq_iff)
  note t = context_not_in_cache_key [OF u w st, of "PInt 7" "[PInt 7, PStr ''a'']"]
  have t2: "hits (snd (wrapper (snd (run_ops (snd ?w) ?ops))
        (sized_kb 2) [PInt 0, PInt 0] (PInt 1) (PInt 7) 2 0)) = 1"
    using t [THEN conjunct2, THEN conjunct1] by (simp only: h)
  have t3: "misses (snd (wrapper (snd (run_ops (snd ?w) ?ops))
        (sized_kb 2) [PInt 0, PInt 0] (PInt 1) (PInt 7) 2 0)) = 2"
    using t [THEN conjunct2, THEN conjunct2, THEN conjunct1] by (simp only: h)
  show ?thesis
    by (intro conjI) (rule u, rule r, rule st, rule t [THEN conjunct1], rule t2, rule t3,
      rule t [THEN conjunct2, THEN conjunct2, THEN conjunct2])
qed

section \<open>One cache for all instances\<close>

text \<open>
  C4: the cache is not per instance. \<^verbatim>\<open>abl_cache\<close> creates one \<^verbatim>\<open>Cache\<close> when
  \<^verbatim>\<open>_abduce_by_search\<close> is decorated, \<^verbatim>\<open>init_cache\<close> binds the key function and the
  capacity of the first instance that makes a cached call, and the key has no part for
  the instance. After a call through the sum instance (capacity 4096), the same call
  through the product instance (capacity 1) is a hit that returns the candidate \<open>[1,1]\<close>
  with result 2, although the product of \<open>[1,1]\<close> is 1 and the search of the product
  instance finds no candidate; the capacity stays 4096.
\<close>

theorem lookup_served_from_other_instance:
  "fst (run_ops (Cache_init abduce_by_search)
      [Call (sized_kb 4096) [PInt 0, PInt 0] (PInt 2) PNone 2 0,
       Call (prod_kb 1) [PInt 0, PInt 0] (PInt 2) PNone 2 0])
    = [Inr (Some ([[PInt 1, PInt 1]], [PInt 2])), Inr (Some ([[PInt 1, PInt 1]], [PInt 2]))]
   \<and> use_cache (prod_kb 1)
   \<and> abduce_by_search (prod_kb 1) [PInt 0, PInt 0] (PInt 2) PNone 2 0 = Inr ([], [])
   \<and> call_logic_forward (prod_kb 1) [PInt 1, PInt 1] PNone = Inr (PInt 1)
   \<and> hits (snd (run_ops (Cache_init abduce_by_search)
      [Call (sized_kb 4096) [PInt 0, PInt 0] (PInt 2) PNone 2 0,
       Call (prod_kb 1) [PInt 0, PInt 0] (PInt 2) PNone 2 0])) = 1
   \<and> max_size (snd (run_ops (Cache_init abduce_by_search)
      [Call (sized_kb 4096) [PInt 0, PInt 0] (PInt 2) PNone 2 0,
       Call (prod_kb 1) [PInt 0, PInt 0] (PInt 2) PNone 2 0])) = Some 4096
   \<and> cache_size (prod_kb 1) = Some 1"
  by code_simp

section \<open>Capacity\<close>

text \<open>
  C10: after any operations on the cache, when its capacity is the integer \<open>n\<close> the
  dictionary has distinct keys and at most \<open>max n 1\<close> entries. With capacity 0 and no
  \<^verbatim>\<open>clear_cache\<close> before, every cached call whose search returns a result returns
  normally and leaves exactly one entry in the dictionary, the one of its own key.
\<close>

theorem cache_dict_size:
  "(max_size (snd (run_ops (Cache_init f) ops)) = Some n \<longrightarrow>
      int (length (cache_dict (snd (run_ops (Cache_init f) ops)))) \<le> max n 1
      \<and> distinct (map fst (cache_dict (snd (run_ops (Cache_init f) ops)))))
   \<and> (Clear_cache \<notin> set ops \<longrightarrow> use_cache obj \<longrightarrow> f obj pl y x mx req = Inr res \<longrightarrow>
      max_size (snd (wrapper (snd (run_ops (Cache_init f) ops)) obj pl y x mx req)) = Some 0 \<longrightarrow>
      (\<exists>v kf a. fst (wrapper (snd (run_ops (Cache_init f) ops)) obj pl y x mx req) = Inr (Some v)
         \<and> Cache.key_func (snd (wrapper (snd (run_ops (Cache_init f) ops)) obj pl y x mx req))
             = Some kf
         \<and> cache_dict (snd (wrapper (snd (run_ops (Cache_init f) ops)) obj pl y x mx req))
             = [((kf (PList pl), kf y, [mx, req]), a)]))"
proof (intro conjI impI)
  let ?c = "snd (run_ops (Cache_init f) ops)"
  have s: "size_ok ?c" by (rule size_ok_run_ops [OF size_ok_Cache_init])
  {
    assume "max_size ?c = Some n"
    with s show "int (length (cache_dict ?c)) \<le> max n 1" by (simp add: size_ok_def)
  }
  from s show "distinct (map fst (cache_dict ?c))" by (simp add: size_ok_def)
  let ?w = "wrapper ?c obj pl y x mx req"
  assume nc: "Clear_cache \<notin> set ops" and u: "use_cache obj"
    and fr: "f obj pl y x mx req = Inr res" and ms: "max_size (snd ?w) = Some 0"
  from cache_inv_run_ops [OF nc cache_inv_Cache_init key_bound_Cache_init, of f]
  obtain ls where inv: "cache_inv (\<lambda>k v. True) ?c ls" and kb: "key_bound ?c" by blast
  let ?c1 = "init_cache ?c obj"
  from cache_inv_init_cache [OF inv] obtain ls1 where
    inv1: "cache_inv (\<lambda>k v. True) ?c1 ls1" ..
  have "Cache.key_func ?c1 \<noteq> None"
    using kb by (cases "has_init ?c") (simp_all add: key_bound_def init_cache_def)
  then obtain kf where kf: "Cache.key_func ?c1 = Some kf" by blast
  have w: "?w = get_from_dict ?c1 obj pl y x mx req" using u by (simp add: wrapper_def)
  have f1: "func ?c1 obj pl y x mx req = Inr res" using fr by simp
  from cache_inv_get_from_dict(2) [OF inv1 kf, of obj pl y x mx req] f1
  obtain v where v: "fst ?w = Inr (Some v)" by (auto simp: w)
  then have g: "get_from_dict ?c1 obj pl y x mx req = (Inr (Some v), snd ?w)"
    by (simp add: w prod_eq_iff)
  from get_from_dict_stores [OF cache_invD(1) [OF inv1] kf g]
  obtain a where kf': "Cache.key_func (snd ?w) = Some kf"
    and m: "map_of (cache_dict (snd ?w)) (kf (PList pl), kf y, [mx, req]) = Some a" by blast
  have "size_ok (snd ?w)" using s by (rule size_ok_wrapper)
  with ms have "length (cache_dict (snd ?w)) \<le> 1" by (simp add: size_ok_def)
  from singleton_dict [OF m this] v kf'
  show "\<exists>v kf a. fst ?w = Inr (Some v) \<and> Cache.key_func (snd ?w) = Some kf
         \<and> cache_dict (snd ?w) = [((kf (PList pl), kf y, [mx, req]), a)]" by blast
qed

theorem cache_dict_size_witness:
  "max_size (snd (run_ops (Cache_init abduce_by_search)
      [Call (sized_kb 0) [PInt 0, PInt 0] (PInt 1) PNone 2 0])) = Some 0
   \<and> length (cache_dict (snd (run_ops (Cache_init abduce_by_search)
      [Call (sized_kb 0) [PInt 0, PInt 0] (PInt 1) PNone 2 0]))) = 1
   \<and> Clear_cache \<notin> set [Call (sized_kb 0) [PInt 0, PInt 0] (PInt 1) PNone 2 0]
   \<and> use_cache (sized_kb 0)
   \<and> abduce_by_search (sized_kb 0) [PInt 0, PInt 0] (PInt 2) PNone 2 0
       = Inr ([[PInt 1, PInt 1]], [PInt 2])
   \<and> (\<exists>v kf a. fst (wrapper (snd (run_ops (Cache_init abduce_by_search)
            [Call (sized_kb 0) [PInt 0, PInt 0] (PInt 1) PNone 2 0])) (sized_kb 0)
            [PInt 0, PInt 0] (PInt 2) PNone 2 0) = Inr (Some v)
        \<and> Cache.key_func (snd (wrapper (snd (run_ops (Cache_init abduce_by_search)
            [Call (sized_kb 0) [PInt 0, PInt 0] (PInt 1) PNone 2 0])) (sized_kb 0)
            [PInt 0, PInt 0] (PInt 2) PNone 2 0)) = Some kf
        \<and> cache_dict (snd (wrapper (snd (run_ops (Cache_init abduce_by_search)
            [Call (sized_kb 0) [PInt 0, PInt 0] (PInt 1) PNone 2 0])) (sized_kb 0)
            [PInt 0, PInt 0] (PInt 2) PNone 2 0))
           = [((kf (PList [PInt 0, PInt 0]), kf (PInt 2), [2, 0]), a)])"
proof -
  let ?ops = "[Call (sized_kb 0) [PInt 0, PInt 0] (PInt 1) PNone 2 0]"
  let ?c = "snd (run_ops (Cache_init abduce_by_search) ?ops)"
  have ms: "max_size ?c = Some 0" by code_simp
  have len: "length (cache_dict ?c) = 1" by code_simp
  have nc: "Clear_cache \<notin> set ?ops" by simp
  have u: "use_cache (sized_kb 0)" by code_simp
  have fr: "abduce_by_search (sized_kb 0) [PInt 0, PInt 0] (PInt 2) PNone 2 0
       = Inr ([[PInt 1, PInt 1]], [PInt 2])" by code_simp
  have ms': "max_size (snd (wrapper ?c (sized_kb 0) [PInt 0, PInt 0] (PInt 2) PNone 2 0)) = Some 0"
    by code_simp
  from cache_dict_size [of abduce_by_search ?ops 0 "sized_kb 0" "[PInt 0, PInt 0]" "PInt 2"
      PNone 2 0 "([[PInt 1, PInt 1]], [PInt 2])"] ms len nc u fr ms'
  show ?thesis by simp
qed

section \<open>Cache transparency\<close>

text \<open>
  C6, as stated, fails for a key function that is not injective: with the constant key
  function the second lookup (target 2) is served the entry of the first one (target 1),
  while the search itself returns \<open>[[1,1]]\<close>.
\<close>

theorem cache_transparent_counterexample:
  "fst (run_ops (Cache_init abduce_by_search)
      [Call const_kb [PInt 0, PInt 0] (PInt 1) PNone 2 0,
       Call const_kb [PInt 0, PInt 0] (PInt 2) PNone 2 0])
    = [Inr (Some ([[PInt 1, PInt 0], [PInt 0, PInt 1]], [PInt 1, PInt 1])),
       Inr (Some ([[PInt 1, PInt 0], [PInt 0, PInt 1]], [PInt 1, PInt 1]))]
   \<and> abduce_by_search const_kb [PInt 0, PInt 0] (PInt 2) PNone 2 0
    = Inr ([[PInt 1, PInt 1]], [PInt 2])
   \<and> use_cache const_kb"
  by code_simp

lemma KBBase_init_off:
  "fst (KBBase_init labels merr False kf cs lf)
    = (fst (KBBase_init labels merr True kf cs lf))\<lparr>use_cache := False\<rparr>"
  by (simp add: KBBase_init_def Let_def)

lemma KBBase_init_fields:
  "KBBase.key_func (fst (KBBase_init labels merr uc kf cs lf)) = kf"
  "use_cache (fst (KBBase_init labels merr uc kf cs lf)) \<Longrightarrow>
     num_args (fst (KBBase_init labels merr uc kf cs lf)) \<noteq> 2"
  by (simp_all add: KBBase_init_def Let_def split: if_splits)

lemma wrapper_uncached:
  "\<not> use_cache obj \<Longrightarrow> fst (wrapper c obj pl y x mx req) = returned (func c obj pl y x mx req)"
  by (simp add: wrapper_def returned_def split: sum.split)

text \<open>
  C6 (amended): for an instance built by the constructor with an injective key function,
  after any history of calls made through this instance alone (and no \<^verbatim>\<open>clear_cache\<close>),
  a call with caching configured on returns exactly what the same call returns with
  caching configured off, which is what the search itself returns or raises.
\<close>

theorem cache_transparent:
  assumes "inj kf"
  shows "fst (wrapper (snd (run_ops (Cache_init abduce_by_search)
              (map (call_op (fst (KBBase_init labels merr True kf cs lf))) history)))
            (fst (KBBase_init labels merr True kf cs lf)) pl y x mx req)
       = fst (wrapper (snd (run_ops (Cache_init abduce_by_search)
              (map (call_op (fst (KBBase_init labels merr False kf cs lf))) history)))
            (fst (KBBase_init labels merr False kf cs lf)) pl y x mx req)
     \<and> fst (wrapper (snd (run_ops (Cache_init abduce_by_search)
              (map (call_op (fst (KBBase_init labels merr True kf cs lf))) history)))
            (fst (KBBase_init labels merr True kf cs lf)) pl y x mx req)
       = returned (abduce_by_search (fst (KBBase_init labels merr True kf cs lf)) pl y x mx req)"
proof -
  let ?on = "fst (KBBase_init labels merr True kf cs lf)"
  let ?off = "fst (KBBase_init labels merr False kf cs lf)"
  let ?con = "snd (run_ops (Cache_init abduce_by_search) (map (call_op ?on) history))"
  let ?coff = "snd (run_ops (Cache_init abduce_by_search) (map (call_op ?off) history))"
  have noff: "\<not> use_cache ?off" by (simp add: KBBase_init_def Let_def)
  have "fst (wrapper ?coff ?off pl y x mx req) = returned (abduce_by_search ?off pl y x mx req)"
    using wrapper_uncached [OF noff, of ?coff] by simp
  also have "abduce_by_search ?off pl y x mx req = abduce_by_search ?on pl y x mx req"
    unfolding KBBase_init_off by (rule abduce_by_search_use_cache)
  finally have off: "fst (wrapper ?coff ?off pl y x mx req)
      = returned (abduce_by_search ?on pl y x mx req)" .
  have on: "fst (wrapper ?con ?on pl y x mx req) = returned (abduce_by_search ?on pl y x mx req)"
  proof (cases "use_cache ?on")
    case False
    from wrapper_uncached [OF False, of ?con] show ?thesis by simp
  next
    case True
    have i: "inj (KBBase.key_func ?on)" using assms by (simp add: KBBase_init_fields)
    note n = KBBase_init_fields(2) [OF True]
    have "transparent_inv ?on ?con"
      by (rule transparent_run [OF True i n transparent_inv_Cache_init])
    from transparent_step(1) [OF this True i n] show ?thesis .
  qed
  from on off show ?thesis by simp
qed

theorem cache_transparent_witness:
  "inj (id :: pyval \<Rightarrow> pyval)
   \<and> fst (wrapper (snd (run_ops (Cache_init abduce_by_search)
              (map (call_op (fst (KBBase_init [PInt 0, PInt 1] (1 / 10 ^ 10) True id (Some 1)
                      (Forward1 sum_forward))))
                 [([PInt 0, PInt 0], PInt 1, PNone, 2, 0), ([PInt 0, PInt 0], PInt 2, PNone, 2, 0)])))
            (fst (KBBase_init [PInt 0, PInt 1] (1 / 10 ^ 10) True id (Some 1) (Forward1 sum_forward)))
            [PInt 0, PInt 0] (PInt 1) (PInt 7) 2 0)
       = Inr (Some ([[PInt 1, PInt 0], [PInt 0, PInt 1]], [PInt 1, PInt 1]))
   \<and> fst (wrapper (snd (run_ops (Cache_init abduce_by_search)
              (map (call_op (fst (KBBase_init [PInt 0, PInt 1] (1 / 10 ^ 10) False id (Some 1)
                      (Forward1 sum_forward))))
                 [([PInt 0, PInt 0], PInt 1, PNone, 2, 0), ([PInt 0, PInt 0], PInt 2, PNone, 2, 0)])))
            (fst (KBBase_init [PInt 0, PInt 1] (1 / 10 ^ 10) False id (Some 1) (Forward1 sum_forward)))
            [PInt 0, PInt 0] (PInt 1) (PInt 7) 2 0)
       = Inr (Some ([[PInt 1, PInt 0], [PInt 0, PInt 1]], [PInt 1, PInt 1]))"
proof -
  have i: "inj (id :: pyval \<Rightarrow> pyval)" by simp
  have r: "returned (abduce_by_search (fst (KBBase_init [PInt 0, PInt 1] (1 / 10 ^ 10) True id
      (Some 1) (Forward1 sum_forward))) [PInt 0, PInt 0] (PInt 1) (PInt 7) 2 0)
    = Inr (Some ([[PInt 1, PInt 0], [PInt 0, PInt 1]], [PInt 1, PInt 1]))" by code_simp
  note t = cache_transparent [OF i, of "[PInt 0, PInt 1]" "1 / 10 ^ 10" "Some 1" "Forward1 sum_forward"
      "[([PInt 0, PInt 0], PInt 1, PNone, 2, 0), ([PInt 0, PInt 0], PInt 2, PNone, 2, 0)]"
      "[PInt 0, PInt 0]" "PInt 1" "PInt 7" 2 0]
  note on = trans [OF t [THEN conjunct2] r]
  note off = trans [OF t [THEN conjunct1, symmetric] on]
  show ?thesis by (intro conjI) (rule i, rule on, rule off)
qed

end
